theory Spec2Isabelle
  imports Main "HOL-Library.Word"
begin

section \<open>The EDF scheduler of src/lib/schedule.c\<close>

subsection \<open>Tasks\<close>

text \<open>
  Times are \<^verbatim>\<open>uint64_t\<close> tick counts, so all arithmetic on them wraps modulo \<open>2 ^ 64\<close>.
  A \<^verbatim>\<open>struct task *\<close> is an address; the tasks themselves live in a store.
\<close>

type_synonym u64 = "64 word"
type_synonym task_ref = nat

text \<open>
  Modelled from the spec: the declarations of \<^verbatim>\<open>reef/schedule.h\<close> are not among the
  sources. The four task states are those of the spec's data model, under the
  names \<^verbatim>\<open>schedule.c\<close> uses for them. \<^verbatim>\<open>max_rtime\<close> is held at the width it has once C has
  converted it for the 64-bit subtraction in \<^verbatim>\<open>edf_get_next\<close>.
\<close>

datatype task_state =
  TASK_STATE_QUEUED | TASK_STATE_RUNNING | TASK_STATE_COMPLETED | TASK_STATE_CANCEL

record task =
  state :: task_state
  start :: u64
  deadline :: u64
  max_rtime :: u64

subsection \<open>Deadline-miss recovery: \<^verbatim>\<open>edf_reschedule\<close>\<close>

definition SLOT_ALIGN_TRIES :: nat where
  "SLOT_ALIGN_TRIES = 10"

text \<open>
  The \<^verbatim>\<open>for\<close> loop of \<^verbatim>\<open>edf_reschedule\<close>, entered with loop counter \<open>i\<close>. The boolean
  tells whether the loop left through its \<^verbatim>\<open>return\<close>.
\<close>

function slot_align :: "nat \<Rightarrow> u64 \<Rightarrow> u64 \<Rightarrow> task \<Rightarrow> task \<times> bool" where
  "slot_align i delta current task =
     (if i < SLOT_ALIGN_TRIES then
        (let task1 = task\<lparr>start := start task + delta\<rparr> in
         if start task1 > current + delta
         then (task1\<lparr>deadline := start task1 + delta\<rparr>, True)
         else slot_align (Suc i) delta current task1)
      else (task, False))"
  by pat_completeness auto
termination
  by (relation "measure (\<lambda>(i, delta, current, task). SLOT_ALIGN_TRIES - i)") auto

declare slot_align.simps [simp del]

definition edf_reschedule :: "task \<Rightarrow> u64 \<Rightarrow> task" where
  "edf_reschedule task current =
     (let delta = push_bit 1 (deadline task - start task) in
      case slot_align 0 delta current task of
        (task1, True) \<Rightarrow> task1
      | (task1, False) \<Rightarrow>
          (let task2 = task1\<lparr>start := current + delta\<rparr>
           in task2\<lparr>deadline := start task2 + delta\<rparr>))"

subsection \<open>Scheduler state\<close>

text \<open>
  \<^verbatim>\<open>struct schedule_data\<close> together with what the scheduler reads and writes around
  it: the store of tasks that the \<^verbatim>\<open>struct task *\<close> arguments point into, whether
  \<^verbatim>\<open>PLATFORM_SCHEDULE_IRQ\<close> is pending, and the time at which \<^verbatim>\<open>sch->work\<close> is armed.
  The spin lock is not modelled: every function below runs as one atomic step.
\<close>

record sched =
  tasks :: "task_ref \<Rightarrow> task"
  sch_list :: "task_ref list"
  clock :: "32 word"
  irq_pending :: bool
  work_at :: "u64 option"

text \<open>
  Modelled from the spec: the list primitives of \<^verbatim>\<open>reef/list.h\<close> are not among the
  sources. The spec's collection is kept in traversal order. A task is on the list through
  its one embedded node (\<^verbatim>\<open>container_of\<close> in the selector, \<^verbatim>\<open>&task->list\<close> in the calls), so
  the list holds no task twice. Appending links the node at the tail. For a task that is
  already on the list, a case the spec does not provide for, this is taken to relink the
  node, so that the traversal from the head ends at the task. Deleting removes the task
  from the collection.
\<close>

definition list_is_empty :: "task_ref list \<Rightarrow> bool" where
  "list_is_empty head = (head = [])"

definition list_item_append :: "task_ref \<Rightarrow> task_ref list \<Rightarrow> task_ref list" where
  "list_item_append item head = takeWhile (\<lambda>r. r \<noteq> item) head @ [item]"

definition list_item_del :: "task_ref \<Rightarrow> task_ref list \<Rightarrow> task_ref list" where
  "list_item_del item head = removeAll item head"

text \<open>
  Modelled from the spec: the interrupt controller and the deferred-callback collaborator
  are not among the sources. Requesting and clearing the scheduling interrupt
  set and reset a pending flag; arming the work replaces any earlier arming.
\<close>

definition interrupt_set :: "sched \<Rightarrow> sched" where
  "interrupt_set s = s\<lparr>irq_pending := True\<rparr>"

definition interrupt_clear :: "sched \<Rightarrow> sched" where
  "interrupt_clear s = s\<lparr>irq_pending := False\<rparr>"

definition work_reschedule_default_at :: "u64 \<Rightarrow> sched \<Rightarrow> sched" where
  "work_reschedule_default_at time s = s\<lparr>work_at := Some time\<rparr>"

text \<open>
  What the platform supplies to \<^verbatim>\<open>schedule_task\<close>: the conversion from microseconds to
  ticks of a clock, and the constant \<^verbatim>\<open>PLATFORM_SCHEDULE_COST\<close>, both at the 64-bit width
  of the expression they are used in.
\<close>

record platform =
  clock_us_to_ticks :: "32 word \<Rightarrow> u64 \<Rightarrow> u64"
  PLATFORM_SCHEDULE_COST :: u64

definition EAGAIN :: int where
  "EAGAIN = 11"

definition UINT64_MAX :: u64 where
  "UINT64_MAX = 0xFFFFFFFFFFFFFFFF"

subsection \<open>The selector: \<^verbatim>\<open>edf_get_next\<close>\<close>

text \<open>
  The local variables of \<^verbatim>\<open>edf_get_next\<close> that live across loop iterations, and the
  scheduler state the loop body works on. \<^verbatim>\<open>reschedule\<close> is a C \<^verbatim>\<open>int\<close> that grows by at
  most one per list item; it is held as an integer without a bound, which agrees with C
  for every list of fewer than \<open>2 ^ 31\<close> items.
\<close>

record edf_vars =
  next_task :: "task_ref option"
  next_delta :: u64
  reschedule :: int
  sch :: sched

text \<open>
  The body of the loop for the list item \<open>clist\<close>. The source's local \<^verbatim>\<open>deadline\<close> is
  \<open>edl\<close> here. \<^verbatim>\<open>reschedule++\<close> tests the old value and increments in both branches.
\<close>

definition edf_visit :: "u64 \<Rightarrow> task_ref \<Rightarrow> edf_vars \<Rightarrow> edf_vars" where
  "edf_visit current clist v =
     (let task = tasks (sch v) clist in
      if state task \<noteq> TASK_STATE_QUEUED then v
      else
        (let edl = deadline task - max_rtime task in
         if current < edl then
           (let delta = edl - current in
            if delta < next_delta v
            then v\<lparr>next_delta := delta, next_task := Some clist\<rparr>
            else v)
         else if reschedule v \<noteq> 0 then
           v\<lparr>reschedule := reschedule v + 1,
             sch := (sch v)\<lparr>tasks := (tasks (sch v))(clist := edf_reschedule task current)\<rparr>\<rparr>
         else
           v\<lparr>reschedule := reschedule v + 1,
             sch := (sch v)
               \<lparr>sch_list := list_item_del clist (sch_list (sch v)),
                tasks := (tasks (sch v))(clist := task\<lparr>state := TASK_STATE_CANCEL\<rparr>)\<rparr>\<rparr>))"

text \<open>
  \<^verbatim>\<open>list_for_item_safe\<close> reads the successor before the body runs, and the body deletes
  at most the item it is visiting, so the loop visits the items the list held on entry,
  in order. The parameter \<open>ignore\<close> is not used, as in the source.
\<close>

definition edf_get_next :: "u64 \<Rightarrow> task_ref option \<Rightarrow> sched \<Rightarrow> task_ref option \<times> sched" where
  "edf_get_next current ignore s =
     (if list_is_empty (sch_list s) then (None, s)
      else
        (let v = fold (edf_visit current) (sch_list s)
                   \<lparr>next_task = None, next_delta = UINT64_MAX, reschedule = 0, sch = s\<rparr>
         in (next_task v, sch v)))"

subsection \<open>The scheduling pass: \<^verbatim>\<open>schedule_edf\<close> and \<^verbatim>\<open>scheduler_run\<close>\<close>

text \<open>
  \<open>current\<close> is the value \<^verbatim>\<open>platform_timer_get\<close> returns. \<open>arch_run_task\<close> is the external
  executor: it runs the task's function, which may do anything to the scheduler state.
\<close>

definition schedule_edf ::
  "(task_ref \<Rightarrow> sched \<Rightarrow> sched) \<Rightarrow> u64 \<Rightarrow> sched \<Rightarrow> task_ref option \<times> sched" where
  "schedule_edf arch_run_task current s =
     (case edf_get_next current None s of
        (task_opt, s1) \<Rightarrow>
          (let s2 = interrupt_clear s1 in
           case task_opt of
             None \<Rightarrow> (None, s2)
           | Some task \<Rightarrow>
               if start (tasks s2 task) > current then (Some task, s2)
               else
                 (case edf_get_next current (Some task) s2 of
                    (next_plus1_task, s3) \<Rightarrow>
                      (let s4 = s3\<lparr>tasks := (tasks s3)(task := (tasks s3 task)\<lparr>start := current\<rparr>)\<rparr>
                       in (next_plus1_task, arch_run_task task s4)))))"

definition scheduler_run :: "(task_ref \<Rightarrow> sched \<Rightarrow> sched) \<Rightarrow> u64 \<Rightarrow> sched \<Rightarrow> sched" where
  "scheduler_run arch_run_task current s =
     (case schedule_edf arch_run_task current s of
        (None, s1) \<Rightarrow> s1
      | (Some next, s1) \<Rightarrow> work_reschedule_default_at (start (tasks s1 next)) s1)"

definition schedule :: "sched \<Rightarrow> sched" where
  "schedule s = interrupt_set s"

subsection \<open>The queue API: \<^verbatim>\<open>schedule_task_del\<close>, \<^verbatim>\<open>schedule_task\<close>, \<^verbatim>\<open>schedule_task_complete\<close>\<close>

definition schedule_task_del :: "task_ref \<Rightarrow> sched \<Rightarrow> int \<times> sched" where
  "schedule_task_del task s =
     (if state (tasks s task) = TASK_STATE_RUNNING then (- EAGAIN, s)
      else
        (0, s\<lparr>sch_list := list_item_del task (sch_list s),
              tasks := (tasks s)(task := (tasks s task)\<lparr>state := TASK_STATE_COMPLETED\<rparr>)\<rparr>))"

text \<open>\<open>start_us\<close> and \<open>deadline_us\<close> are the source's parameters \<^verbatim>\<open>start\<close> and \<^verbatim>\<open>deadline\<close>.\<close>

definition schedule_task ::
  "platform \<Rightarrow> u64 \<Rightarrow> task_ref \<Rightarrow> u64 \<Rightarrow> u64 \<Rightarrow> sched \<Rightarrow> sched" where
  "schedule_task p current task start_us deadline_us s =
     (if state (tasks s task) = TASK_STATE_RUNNING then s
      else
        (let t0 = tasks s task;
             t1 = (if start_us = 0 then t0\<lparr>start := current\<rparr>
                   else t0\<lparr>start := start t0 + clock_us_to_ticks p (clock s) start_us
                                   - PLATFORM_SCHEDULE_COST p\<rparr>);
             t2 = t1\<lparr>deadline := start t1 + clock_us_to_ticks p (clock s) deadline_us\<rparr>;
             s1 = s\<lparr>sch_list := list_item_append task (sch_list s),
                    tasks := (tasks s)(task := t2\<lparr>state := TASK_STATE_QUEUED\<rparr>)\<rparr>
         in schedule s1))"

definition schedule_task_complete :: "task_ref \<Rightarrow> sched \<Rightarrow> sched" where
  "schedule_task_complete task s =
     s\<lparr>sch_list := list_item_del task (sch_list s),
       tasks := (tasks s)(task := (tasks s task)\<lparr>state := TASK_STATE_COMPLETED\<rparr>)\<rparr>"

subsection \<open>Notions used to state the properties\<close>

text \<open>The recovery window of a task: twice the length of its scheduling window.\<close>

abbreviation window :: "task \<Rightarrow> u64" where
  "window task \<equiv> 2 * (deadline task - start task)"

text \<open>A queued task whose effective deadline is at or before \<open>current\<close>.\<close>

definition missed :: "u64 \<Rightarrow> task \<Rightarrow> bool" where
  "missed current task =
     (state task = TASK_STATE_QUEUED \<and> \<not> current < deadline task - max_rtime task)"

text \<open>The delta the selector computes for a task: its effective deadline minus \<open>current\<close>.\<close>

abbreviation edf_delta :: "u64 \<Rightarrow> task \<Rightarrow> u64" where
  "edf_delta current task \<equiv> deadline task - max_rtime task - current"

text \<open>Every queued member of the list has its deadline after its start.\<close>

definition queued_ok :: "sched \<Rightarrow> bool" where
  "queued_ok s =
     list_all (\<lambda>r. state (tasks s r) = TASK_STATE_QUEUED \<longrightarrow>
                     start (tasks s r) < deadline (tasks s r)) (sch_list s)"

text \<open>
  Recovery of \<open>task\<close> at time \<open>current\<close> stays inside 64 bits: the window is not zero, and
  neither eleven windows past the start nor two windows past \<open>current\<close> wrap around.
\<close>

definition realign_fits :: "u64 \<Rightarrow> task \<Rightarrow> bool" where
  "realign_fits current task =
     (window task \<noteq> 0 \<and>
      unat (start task) + 11 * unat (window task) < 2 ^ 64 \<and>
      unat current + 2 * unat (window task) < 2 ^ 64)"

subsection \<open>Example data\<close>

text \<open>A platform that counts 19 ticks per microsecond, and a task.\<close>

definition platform_eg :: platform where
  "platform_eg = \<lparr>clock_us_to_ticks = (\<lambda>clk us. 19 * us), PLATFORM_SCHEDULE_COST = 200\<rparr>"

definition task_eg :: task where
  "task_eg = \<lparr>state = TASK_STATE_QUEUED, start = 0, deadline = 100, max_rtime = 10\<rparr>"

text \<open>An empty scheduler over a store of completed tasks, then with task 0 queued, and with
  task 0 running.\<close>

definition sched_eg :: sched where
  "sched_eg =
     \<lparr>tasks = (\<lambda>r. \<lparr>state = TASK_STATE_COMPLETED, start = 0, deadline = 0, max_rtime = 0\<rparr>),
      sch_list = [], clock = 0, irq_pending = False, work_at = None\<rparr>"

definition sched_queued_eg :: sched where
  "sched_queued_eg = sched_eg\<lparr>tasks := (tasks sched_eg)(0 := task_eg), sch_list := [0]\<rparr>"

definition sched_running_eg :: sched where
  "sched_running_eg =
     sched_eg\<lparr>tasks := (tasks sched_eg)(0 := task_eg\<lparr>state := TASK_STATE_RUNNING\<rparr>),
              sch_list := [0]\<rparr>"

text \<open>Three tasks in the list: tasks 0 and 2 have an effective deadline of 90, task 1 one
  of 1990 and a start of 1500.\<close>

definition sched_missed_eg :: sched where
  "sched_missed_eg =
     sched_eg\<lparr>tasks := (tasks sched_eg)
                (0 := task_eg,
                 1 := \<lparr>state = TASK_STATE_QUEUED, start = 1500, deadline = 2000, max_rtime = 10\<rparr>,
                 2 := task_eg),
              sch_list := [0, 1, 2]\<rparr>"

text \<open>A scheduler whose only task is queued with the largest effective deadline there is.\<close>

definition sched_far_eg :: sched where
  "sched_far_eg =
     sched_eg\<lparr>tasks := (tasks sched_eg)
                (0 := \<lparr>state = TASK_STATE_QUEUED, start = 0,
                       deadline = 0xFFFFFFFFFFFFFFFF, max_rtime = 0\<rparr>),
              sch_list := [0]\<rparr>"

text \<open>An executor whose task function does nothing but report the task complete.\<close>

definition arch_run_task_eg :: "task_ref \<Rightarrow> sched \<Rightarrow> sched" where
  "arch_run_task_eg task s = schedule_task_complete task s"

text \<open>A scheduler whose only task is queued with a \<open>max_rtime\<close> above its deadline.\<close>

definition sched_long_eg :: sched where
  "sched_long_eg =
     sched_eg\<lparr>tasks := (tasks sched_eg)
                (0 := \<lparr>state = TASK_STATE_QUEUED, start = 3, deadline = 5, max_rtime = 10\<rparr>),
              sch_list := [0]\<rparr>"

section \<open>Properties\<close>

subsection \<open>Deadline-miss recovery\<close>

text \<open>The shift by one bit in \<^verbatim>\<open>edf_reschedule\<close> doubles modulo \<open>2 ^ 64\<close>.\<close>

lemma push_bit_1_u64: "push_bit 1 (x :: u64) = 2 * x"
  by (simp add: push_bit_eq_mult)

text \<open>The loop touches only the start and the deadline.\<close>

lemma slot_align_frame:
  "slot_align i delta current task = (task', b) \<Longrightarrow>
     state task' = state task \<and> max_rtime task' = max_rtime task"
proof (induction i delta current task rule: slot_align.induct)
  case (1 i delta current task)
  show ?case
  proof (cases "i < SLOT_ALIGN_TRIES")
    case False
    with "1.prems" show ?thesis by (simp add: slot_align.simps)
  next
    case True
    show ?thesis
    proof (cases "start task + delta > current + delta")
      case acc: True
      with True "1.prems" show ?thesis
        by (auto simp: slot_align.simps [of i] Let_def)
    next
      case rej: False
      with True "1.prems"
      have "slot_align (Suc i) delta current (task\<lparr>start := start task + delta\<rparr>) = (task', b)"
        by (simp add: slot_align.simps [of i] Let_def)
      from "1.IH" [OF True refl _ this] rej show ?thesis by simp
    qed
  qed
qed

text \<open>
  What the loop returns when entered at counter \<open>i\<close>: if it left through its
  \<^verbatim>\<open>return\<close>, some iteration \<open>k\<close> was the first to get the start past \<open>current + delta\<close>;
  if not, no iteration up to the last did.
\<close>

lemma slot_align_spec:
  "slot_align i delta current task = (task', b) \<Longrightarrow>
     (if b then
        (\<exists>k. i < k \<and> k \<le> SLOT_ALIGN_TRIES \<and>
             start task' = start task + of_nat (k - i) * delta \<and>
             start task' > current + delta \<and>
             deadline task' = start task' + delta \<and>
             (\<forall>j. i < j \<and> j < k \<longrightarrow> \<not> start task + of_nat (j - i) * delta > current + delta))
      else
        (\<forall>j. i < j \<and> j \<le> SLOT_ALIGN_TRIES \<longrightarrow> \<not> start task + of_nat (j - i) * delta > current + delta))"
proof (induction i delta current task rule: slot_align.induct)
  case (1 i delta current task)
  show ?case
  proof (cases "i < SLOT_ALIGN_TRIES")
    case False
    with "1.prems" show ?thesis by (auto simp: slot_align.simps [of i])
  next
    case True
    show ?thesis
    proof (cases "start task + delta > current + delta")
      case acc: True
      with True "1.prems" have b: "b" and t: "task' = task\<lparr>start := start task + delta, deadline := start task + delta + delta\<rparr>"
        by (auto simp: slot_align.simps [of i] Let_def)
      show ?thesis using b t acc True
        by (auto intro!: exI [of _ "Suc i"])
    next
      case rej: False
      let ?t1 = "task\<lparr>start := start task + delta\<rparr>"
      from rej True "1.prems"
      have rec: "slot_align (Suc i) delta current ?t1 = (task', b)"
        by (simp add: slot_align.simps [of i] Let_def)
      note IH = "1.IH" [OF True refl _ rec]
      have shift: "start task + of_nat (j - i) * delta = start ?t1 + of_nat (j - Suc i) * delta"
        if "Suc i < j" for j
      proof -
        from that obtain m where m: "j - i = Suc m" "j - Suc i = m" by (cases "j - i") auto
        show ?thesis unfolding m by (simp add: algebra_simps)
      qed
      have first: "start task + of_nat (Suc i - i) * delta = start task + delta"
        by simp
      show ?thesis
      proof (cases b)
        case True
        with IH rej obtain k where k: "Suc i < k" "k \<le> SLOT_ALIGN_TRIES"
          "start task' = start ?t1 + of_nat (k - Suc i) * delta"
          "start task' > current + delta" "deadline task' = start task' + delta"
          "\<forall>j. Suc i < j \<and> j < k \<longrightarrow> \<not> start ?t1 + of_nat (j - Suc i) * delta > current + delta"
          by auto
        have "i < k" using k by simp
        have st: "start task' = start task + of_nat (k - i) * delta"
          unfolding shift [OF k(1)] by (rule k(3))
        have nj: "\<forall>j. i < j \<and> j < k \<longrightarrow> \<not> start task + of_nat (j - i) * delta > current + delta"
        proof (intro allI impI)
          fix j assume j: "i < j \<and> j < k"
          show "\<not> start task + of_nat (j - i) * delta > current + delta"
          proof (cases "j = Suc i")
            case True
            show ?thesis unfolding True first by (rule rej)
          next
            case False
            with j have "Suc i < j \<and> j < k" by simp
            with k(6) have "\<not> start ?t1 + of_nat (j - Suc i) * delta > current + delta" by blast
            then show ?thesis unfolding shift [OF \<open>Suc i < j \<and> j < k\<close> [THEN conjunct1]] .
          qed
        qed
        show ?thesis using True \<open>i < k\<close> k(2) st k(4) k(5) nj by auto
      next
        case False
        with IH rej
        have a: "\<forall>j. Suc i < j \<and> j \<le> SLOT_ALIGN_TRIES \<longrightarrow> \<not> start ?t1 + of_nat (j - Suc i) * delta > current + delta"
          by auto
        have "\<forall>j. i < j \<and> j \<le> SLOT_ALIGN_TRIES \<longrightarrow> \<not> start task + of_nat (j - i) * delta > current + delta"
        proof (intro allI impI)
          fix j assume j: "i < j \<and> j \<le> SLOT_ALIGN_TRIES"
          show "\<not> start task + of_nat (j - i) * delta > current + delta"
          proof (cases "j = Suc i")
            case True
            show ?thesis unfolding True first by (rule rej)
          next
            case F: False
            with j have "Suc i < j \<and> j \<le> SLOT_ALIGN_TRIES" by simp
            with a have "\<not> start ?t1 + of_nat (j - Suc i) * delta > current + delta" by blast
            then show ?thesis
              unfolding shift [OF \<open>Suc i < j \<and> j \<le> SLOT_ALIGN_TRIES\<close> [THEN conjunct1]] .
          qed
        qed
        with False show ?thesis by simp
      qed
    qed
  qed
qed

text \<open>Recovery keeps the state and \<open>max_rtime\<close> of the task.\<close>

lemma edf_reschedule_frame:
  "state (edf_reschedule task current) = state task"
  "max_rtime (edf_reschedule task current) = max_rtime task"
proof -
  obtain task1 b where sa: "slot_align 0 (window task) current task = (task1, b)"
    by (cases "slot_align 0 (window task) current task")
  have "edf_reschedule task current =
          (if b then task1
           else task1\<lparr>start := current + window task, deadline := current + window task + window task\<rparr>)"
    unfolding edf_reschedule_def Let_def push_bit_1_u64 sa by simp
  with slot_align_frame [OF sa]
  show "state (edf_reschedule task current) = state task"
    "max_rtime (edf_reschedule task current) = max_rtime task"
    by simp_all
qed

text \<open>The two ways recovery ends, without the minimality of \<open>k\<close>.\<close>

lemma edf_reschedule_cases:
  "deadline (edf_reschedule task current) = start (edf_reschedule task current) + window task \<and>
   ((\<exists>k. k \<le> 10 \<and> start (edf_reschedule task current) = start task + of_nat k * window task \<and>
         current + window task < start (edf_reschedule task current))
    \<or> start (edf_reschedule task current) = current + window task)"
proof -
  obtain task1 b where sa: "slot_align 0 (window task) current task = (task1, b)"
    by (cases "slot_align 0 (window task) current task")
  have res: "edf_reschedule task current =
          (if b then task1
           else task1\<lparr>start := current + window task, deadline := current + window task + window task\<rparr>)"
    unfolding edf_reschedule_def Let_def push_bit_1_u64 sa by simp
  show ?thesis
  proof (cases b)
    case True
    with slot_align_spec [OF sa] obtain k where "k \<le> SLOT_ALIGN_TRIES"
      "start task1 = start task + of_nat (k - 0) * window task"
      "current + window task < start task1" "deadline task1 = start task1 + window task"
      by auto
    then show ?thesis using True res by (auto simp: SLOT_ALIGN_TRIES_def)
  next
    case False
    then show ?thesis using res by simp
  qed
qed

text \<open>
  C2. Recovery computes the window \<open>2 * (deadline - start)\<close> from the task as it was on
  entry. Either some iteration \<open>k\<close> of at most 10 is the first whose advanced start
  \<open>start + k * window\<close> strictly exceeds \<open>current + window\<close>, and that start is kept; or none
  of the 10 does, and the start is forced to \<open>current + window\<close>. In both cases the new
  deadline is the new start plus the window, and nothing else of the task changes.
  All arithmetic is that of \<^verbatim>\<open>uint64_t\<close>.
\<close>

theorem edf_reschedule_realign:
  "deadline (edf_reschedule task current) = start (edf_reschedule task current) + window task \<and>
   state (edf_reschedule task current) = state task \<and>
   max_rtime (edf_reschedule task current) = max_rtime task \<and>
   ((\<exists>k\<in>{1..10}.
        start (edf_reschedule task current) = start task + of_nat k * window task \<and>
        current + window task < start (edf_reschedule task current) \<and>
        (\<forall>j\<in>{1..<k}. \<not> current + window task < start task + of_nat j * window task))
    \<or> ((\<forall>j\<in>{1..10}. \<not> current + window task < start task + of_nat j * window task) \<and>
        start (edf_reschedule task current) = current + window task))"
proof -
  obtain task1 b where sa: "slot_align 0 (window task) current task = (task1, b)"
    by (cases "slot_align 0 (window task) current task")
  note fr = slot_align_frame [OF sa]
  note sp = slot_align_spec [OF sa]
  show ?thesis
  proof (cases b)
    case True
    then have res: "edf_reschedule task current = task1"
      unfolding edf_reschedule_def Let_def push_bit_1_u64 sa by simp
    from sp True obtain k where k: "0 < k" "k \<le> SLOT_ALIGN_TRIES"
      "start task1 = start task + of_nat (k - 0) * window task"
      "current + window task < start task1"
      "deadline task1 = start task1 + window task"
      "\<forall>j. 0 < j \<and> j < k \<longrightarrow> \<not> current + window task < start task + of_nat (j - 0) * window task"
      by auto
    have "k \<in> {1..10}" using k(1,2) by (simp add: SLOT_ALIGN_TRIES_def)
    moreover have "\<forall>j\<in>{1..<k}. \<not> current + window task < start task + of_nat j * window task"
      using k(6) by simp
    ultimately show ?thesis unfolding res using k(3,4,5) fr by auto
  next
    case False
    then have res: "edf_reschedule task current =
        task1\<lparr>start := current + window task, deadline := current + window task + window task\<rparr>"
      unfolding edf_reschedule_def Let_def push_bit_1_u64 sa by simp
    from sp False have "\<forall>j\<in>{1..10}. \<not> current + window task < start task + of_nat j * window task"
      by (simp add: SLOT_ALIGN_TRIES_def)
    then show ?thesis unfolding res using fr by simp
  qed
qed

theorem edf_reschedule_realign_witness:
  "start (edf_reschedule task_eg 1000) = 1400 \<and> deadline (edf_reschedule task_eg 1000) = 1600"
proof -
  have s: "start (edf_reschedule task_eg 1000) = 1400"
    by (simp add: edf_reschedule_def task_eg_def slot_align.simps SLOT_ALIGN_TRIES_def Let_def)
  have "deadline (edf_reschedule task_eg 1000) = start (edf_reschedule task_eg 1000) + window task_eg"
    using edf_reschedule_realign [of task_eg 1000] by blast
  then show ?thesis using s by (simp add: task_eg_def)
qed

subsection \<open>Removing a task\<close>

text \<open>
  C3. Deleting a running task returns \<open>- EAGAIN\<close>, which is not the success value 0, and
  leaves the whole scheduler state as it was: the task's state, start and deadline, and
  the list.
\<close>

theorem schedule_task_del_running:
  "state (tasks s task) = TASK_STATE_RUNNING \<Longrightarrow>
     fst (schedule_task_del task s) = - EAGAIN \<and> - EAGAIN \<noteq> (0 :: int) \<and>
     snd (schedule_task_del task s) = s"
  by (simp add: schedule_task_del_def EAGAIN_def)

theorem schedule_task_del_running_witness:
  "state (tasks sched_running_eg 0) = TASK_STATE_RUNNING \<and>
   fst (schedule_task_del 0 sched_running_eg) = - 11 \<and>
   snd (schedule_task_del 0 sched_running_eg) = sched_running_eg"
proof -
  have h: "state (tasks sched_running_eg 0) = TASK_STATE_RUNNING"
    by (simp add: sched_running_eg_def sched_eg_def task_eg_def)
  show ?thesis using h schedule_task_del_running [OF h] by (simp add: EAGAIN_def)
qed

text \<open>
  C4, as the spec states it, fails: deleting the queued task 0 leaves it in state
  \<open>TASK_STATE_COMPLETED\<close>, not \<open>TASK_STATE_CANCEL\<close>.
\<close>

theorem schedule_task_del_cancel_counterexample:
  "state (tasks sched_queued_eg 0) \<noteq> TASK_STATE_RUNNING \<and>
   fst (schedule_task_del 0 sched_queued_eg) = 0 \<and>
   state (tasks (snd (schedule_task_del 0 sched_queued_eg)) 0) = TASK_STATE_COMPLETED \<and>
   state (tasks (snd (schedule_task_del 0 sched_queued_eg)) 0) \<noteq> TASK_STATE_CANCEL"
  by (simp add: schedule_task_del_def sched_queued_eg_def sched_eg_def task_eg_def)

text \<open>
  C4, amended. Deleting a task that is not running returns 0, removes the task from the
  list and leaves the other members in their order, sets the task's state to
  \<open>TASK_STATE_COMPLETED\<close> without touching its times, and changes no other task.
\<close>

theorem schedule_task_del_completed:
  "state (tasks s task) \<noteq> TASK_STATE_RUNNING \<Longrightarrow>
     fst (schedule_task_del task s) = 0 \<and>
     task \<notin> set (sch_list (snd (schedule_task_del task s))) \<and>
     sch_list (snd (schedule_task_del task s)) = removeAll task (sch_list s) \<and>
     tasks (snd (schedule_task_del task s)) task = (tasks s task)\<lparr>state := TASK_STATE_COMPLETED\<rparr> \<and>
     (\<forall>r. r \<noteq> task \<longrightarrow> tasks (snd (schedule_task_del task s)) r = tasks s r)"
  by (simp add: schedule_task_del_def list_item_del_def)

theorem schedule_task_del_completed_witness:
  "state (tasks sched_queued_eg 0) \<noteq> TASK_STATE_RUNNING \<and>
   fst (schedule_task_del 0 sched_queued_eg) = 0 \<and>
   sch_list (snd (schedule_task_del 0 sched_queued_eg)) = [] \<and>
   state (tasks (snd (schedule_task_del 0 sched_queued_eg)) 0) = TASK_STATE_COMPLETED"
proof -
  have h: "state (tasks sched_queued_eg 0) \<noteq> TASK_STATE_RUNNING"
    by (simp add: sched_queued_eg_def sched_eg_def task_eg_def)
  show ?thesis using h schedule_task_del_completed [OF h]
    by (simp add: sched_queued_eg_def sched_eg_def task_eg_def)
qed

subsection \<open>Inserting a task\<close>


lemma list_item_append_set:
  "item \<in> set (list_item_append item head)"
  "r \<in> set (list_item_append item head) \<Longrightarrow> r = item \<or> r \<in> set head"
  by (auto simp: list_item_append_def dest: set_takeWhileD)

lemma list_item_append_distinct:
  "distinct head \<Longrightarrow> distinct (list_item_append item head)"
  by (auto simp: list_item_append_def dest: set_takeWhileD)

lemma schedule_task_list:
  "sch_list (schedule_task p current task start_us deadline_us s) =
     (if state (tasks s task) = TASK_STATE_RUNNING then sch_list s
      else list_item_append task (sch_list s))"
  by (simp add: schedule_task_def schedule_def interrupt_set_def Let_def)

lemma schedule_task_distinct:
  "distinct (sch_list s) \<Longrightarrow>
     distinct (sch_list (schedule_task p current task start_us deadline_us s))"
  by (simp add: schedule_task_list list_item_append_distinct)



text \<open>
  C10. \<open>schedule_task\<close> leaves the scheduler unchanged when the task is running. A task
  in any other state, whether queued, completed or cancelled, ends in state
  \<open>TASK_STATE_QUEUED\<close> as a member of the list, with its start and deadline recomputed
  from the call's arguments and its \<open>max_rtime\<close> kept. For a completed or a cancelled
  task this is a change of the scheduler: the call is not rejected.
\<close>

theorem schedule_task_readmits:
  "(state (tasks s task) = TASK_STATE_RUNNING \<longrightarrow>
      schedule_task p current task start_us deadline_us s = s) \<and>
   (state (tasks s task) \<in> {TASK_STATE_QUEUED, TASK_STATE_COMPLETED, TASK_STATE_CANCEL} \<longrightarrow>
      tasks (schedule_task p current task start_us deadline_us s) task =
        \<lparr>state = TASK_STATE_QUEUED,
         start = (if start_us = 0 then current
                  else start (tasks s task) + clock_us_to_ticks p (clock s) start_us
                         - PLATFORM_SCHEDULE_COST p),
         deadline = (if start_us = 0 then current
                     else start (tasks s task) + clock_us_to_ticks p (clock s) start_us
                            - PLATFORM_SCHEDULE_COST p)
                    + clock_us_to_ticks p (clock s) deadline_us,
         max_rtime = max_rtime (tasks s task)\<rparr> \<and>
      task \<in> set (sch_list (schedule_task p current task start_us deadline_us s))) \<and>
   (state (tasks s task) \<in> {TASK_STATE_COMPLETED, TASK_STATE_CANCEL} \<longrightarrow>
      schedule_task p current task start_us deadline_us s \<noteq> s)"
proof -
  have run: "schedule_task p current task start_us deadline_us s = s"
    if "state (tasks s task) = TASK_STATE_RUNNING"
    using that by (simp add: schedule_task_def)
  have mem: "task \<in> set (sch_list (schedule_task p current task start_us deadline_us s))"
    if "state (tasks s task) \<noteq> TASK_STATE_RUNNING"
    using that by (simp add: schedule_task_list list_item_append_set(1))
  have st: "state (tasks (schedule_task p current task start_us deadline_us s) task)
              = TASK_STATE_QUEUED"
    if "state (tasks s task) \<noteq> TASK_STATE_RUNNING"
    using that by (simp add: schedule_task_def schedule_def interrupt_set_def Let_def)
  have chg: "schedule_task p current task start_us deadline_us s \<noteq> s"
    if "state (tasks s task) \<in> {TASK_STATE_COMPLETED, TASK_STATE_CANCEL}"
  proof
    assume "schedule_task p current task start_us deadline_us s = s"
    then have "state (tasks (schedule_task p current task start_us deadline_us s) task)
                 = state (tasks s task)"
      by simp
    with st that show False by auto
  qed
  have rec: "tasks (schedule_task p current task start_us deadline_us s) task =
        \<lparr>state = TASK_STATE_QUEUED,
         start = (if start_us = 0 then current
                  else start (tasks s task) + clock_us_to_ticks p (clock s) start_us
                         - PLATFORM_SCHEDULE_COST p),
         deadline = (if start_us = 0 then current
                     else start (tasks s task) + clock_us_to_ticks p (clock s) start_us
                            - PLATFORM_SCHEDULE_COST p)
                    + clock_us_to_ticks p (clock s) deadline_us,
         max_rtime = max_rtime (tasks s task)\<rparr>"
    if "state (tasks s task) \<noteq> TASK_STATE_RUNNING"
    using that by (simp add: schedule_task_def schedule_def interrupt_set_def Let_def)
  from run mem chg rec show ?thesis by auto
qed

theorem schedule_task_readmits_witness:
  "state (tasks sched_eg 0) = TASK_STATE_COMPLETED \<and>
   state (tasks (schedule_task platform_eg 7 0 0 1000 sched_eg) 0) = TASK_STATE_QUEUED \<and>
   start (tasks (schedule_task platform_eg 7 0 0 1000 sched_eg) 0) = 7 \<and>
   deadline (tasks (schedule_task platform_eg 7 0 0 1000 sched_eg) 0) = 19007 \<and>
   0 \<in> set (sch_list (schedule_task platform_eg 7 0 0 1000 sched_eg)) \<and>
   schedule_task platform_eg 7 0 0 1000 sched_eg \<noteq> sched_eg \<and>
   state (tasks sched_running_eg 0) = TASK_STATE_RUNNING \<and>
   schedule_task platform_eg 7 0 0 1000 sched_running_eg = sched_running_eg"
proof -
  have h: "state (tasks sched_eg 0) = TASK_STATE_COMPLETED"
    by (simp add: sched_eg_def)
  have r: "state (tasks sched_running_eg 0) = TASK_STATE_RUNNING"
    by (simp add: sched_running_eg_def sched_eg_def task_eg_def)
  have c: "clock_us_to_ticks platform_eg (clock sched_eg) 1000 = 19000"
    by (simp add: platform_eg_def)
  note i1 = schedule_task_readmits [of sched_eg 0 platform_eg 7 0 1000]
  note i2 = schedule_task_readmits [of sched_running_eg 0 platform_eg 7 0 1000]
  from i1 h c
  have "tasks (schedule_task platform_eg 7 0 0 1000 sched_eg) 0 =
          \<lparr>state = TASK_STATE_QUEUED, start = 7, deadline = 19007,
            max_rtime = max_rtime (tasks sched_eg 0)\<rparr>"
    "0 \<in> set (sch_list (schedule_task platform_eg 7 0 0 1000 sched_eg))"
    "schedule_task platform_eg 7 0 0 1000 sched_eg \<noteq> sched_eg"
    by simp_all
  moreover from i2 r
  have "schedule_task platform_eg 7 0 0 1000 sched_running_eg = sched_running_eg"
    by blast
  ultimately show ?thesis using h r by simp
qed

subsection \<open>The selector's pass over the list\<close>

text \<open>The three cases of one visit, as far as the scheduler state and the miss counter go.\<close>

lemma edf_visit_not_missed:
  "\<not> missed current (tasks (sch v) x) \<Longrightarrow>
     sch (edf_visit current x v) = sch v \<and> reschedule (edf_visit current x v) = reschedule v"
  by (simp add: edf_visit_def missed_def Let_def)

lemma edf_visit_missed_later:
  "missed current (tasks (sch v) x) \<Longrightarrow> reschedule v \<noteq> 0 \<Longrightarrow>
     edf_visit current x v =
       v\<lparr>reschedule := reschedule v + 1,
         sch := (sch v)\<lparr>tasks := (tasks (sch v))(x := edf_reschedule (tasks (sch v) x) current)\<rparr>\<rparr>"
  by (simp add: edf_visit_def missed_def Let_def)

lemma edf_visit_missed_first:
  "missed current (tasks (sch v) x) \<Longrightarrow> reschedule v = 0 \<Longrightarrow>
     edf_visit current x v =
       v\<lparr>reschedule := 1,
         sch := (sch v)\<lparr>sch_list := removeAll x (sch_list (sch v)),
                       tasks := (tasks (sch v))(x := (tasks (sch v) x)\<lparr>state := TASK_STATE_CANCEL\<rparr>)\<rparr>\<rparr>"
  by (simp add: edf_visit_def missed_def Let_def list_item_del_def)

text \<open>Once a miss has been counted, every missed task met afterwards is rescheduled and
  the list is left alone.\<close>

lemma edf_pass_later:
  "distinct xs \<Longrightarrow> 0 < reschedule v \<Longrightarrow>
     sch (fold (edf_visit current) xs v) =
       (sch v)\<lparr>tasks := (\<lambda>r. if r \<in> set xs \<and> missed current (tasks (sch v) r)
                              then edf_reschedule (tasks (sch v) r) current
                              else tasks (sch v) r)\<rparr>"
proof (induction xs arbitrary: v)
  case Nil
  then show ?case by simp
next
  case (Cons x xs)
  let ?v = "edf_visit current x v"
  from Cons.prems have d: "distinct xs" and nx: "x \<notin> set xs" by simp_all
  show ?case
  proof (cases "missed current (tasks (sch v) x)")
    case False
    with edf_visit_not_missed [OF False] Cons.prems
    have v: "sch ?v = sch v" "0 < reschedule ?v" by simp_all
    have "sch (fold (edf_visit current) (x # xs) v) = sch (fold (edf_visit current) xs ?v)"
      by simp
    also note Cons.IH [OF d v(2)]
    finally show ?thesis using False by (auto simp: v(1) fun_eq_iff intro!: sched.equality)
  next
    case True
    from Cons.prems have "reschedule v \<noteq> 0" by simp
    note eq = edf_visit_missed_later [OF True this]
    have pos: "0 < reschedule ?v" using Cons.prems by (simp add: eq)
    have "sch (fold (edf_visit current) (x # xs) v) = sch (fold (edf_visit current) xs ?v)"
      by simp
    also note Cons.IH [OF d pos]
    finally show ?thesis using True nx by (auto simp: eq fun_eq_iff intro!: sched.equality)
  qed
qed

text \<open>Before any miss has been counted, the first missed task in the list is deleted and
  cancelled and the missed tasks after it are rescheduled.\<close>

lemma edf_pass_first:
  "distinct xs \<Longrightarrow> reschedule v = 0 \<Longrightarrow>
     sch (fold (edf_visit current) xs v) =
       (case filter (\<lambda>r. missed current (tasks (sch v) r)) xs of
          [] \<Rightarrow> sch v
        | m # ms \<Rightarrow>
            (sch v)\<lparr>sch_list := removeAll m (sch_list (sch v)),
                    tasks := (\<lambda>r. if r = m then (tasks (sch v) m)\<lparr>state := TASK_STATE_CANCEL\<rparr>
                                   else if r \<in> set ms then edf_reschedule (tasks (sch v) r) current
                                   else tasks (sch v) r)\<rparr>)"
proof (induction xs arbitrary: v)
  case Nil
  then show ?case by simp
next
  case (Cons x xs)
  let ?v = "edf_visit current x v"
  from Cons.prems have d: "distinct xs" and nx: "x \<notin> set xs" by simp_all
  show ?case
  proof (cases "missed current (tasks (sch v) x)")
    case False
    with edf_visit_not_missed [OF False] Cons.prems
    have v: "sch ?v = sch v" "reschedule ?v = 0" by simp_all
    have "sch (fold (edf_visit current) (x # xs) v) = sch (fold (edf_visit current) xs ?v)"
      by simp
    also note Cons.IH [OF d v(2)]
    finally show ?thesis unfolding v(1) using False by simp
  next
    case True
    note eq = edf_visit_missed_first [OF True Cons.prems(2)]
    have pos: "0 < reschedule ?v" by (simp add: eq)
    have "sch (fold (edf_visit current) (x # xs) v) = sch (fold (edf_visit current) xs ?v)"
      by simp
    also note edf_pass_later [OF d pos]
    finally show ?thesis using True nx
      by (auto simp: eq fun_eq_iff intro!: sched.equality)
  qed
qed

text \<open>
  C1. Take a list without repetitions and the tasks in it that are queued with an
  effective deadline at or before \<open>current\<close>, in list order. The first of them, \<open>m\<close>, is
  deleted from the list and its state becomes \<open>TASK_STATE_CANCEL\<close>. Each of the others
  stays in the list, stays queued, and is replaced by what \<open>edf_reschedule\<close> makes of it.
  No other task changes. If no task has missed, the pass changes nothing.
\<close>

theorem edf_get_next_miss_policy:
  "distinct (sch_list s) \<Longrightarrow>
   (filter (\<lambda>r. missed current (tasks s r)) (sch_list s) = [] \<longrightarrow>
      snd (edf_get_next current ignore s) = s) \<and>
   (\<forall>m ms. filter (\<lambda>r. missed current (tasks s r)) (sch_list s) = m # ms \<longrightarrow>
      sch_list (snd (edf_get_next current ignore s)) = removeAll m (sch_list s) \<and>
      m \<notin> set (sch_list (snd (edf_get_next current ignore s))) \<and>
      tasks (snd (edf_get_next current ignore s)) m = (tasks s m)\<lparr>state := TASK_STATE_CANCEL\<rparr> \<and>
      (\<forall>r\<in>set ms.
         r \<in> set (sch_list (snd (edf_get_next current ignore s))) \<and>
         state (tasks (snd (edf_get_next current ignore s)) r) = TASK_STATE_QUEUED \<and>
         tasks (snd (edf_get_next current ignore s)) r = edf_reschedule (tasks s r) current) \<and>
      (\<forall>r. r \<notin> set (m # ms) \<longrightarrow> tasks (snd (edf_get_next current ignore s)) r = tasks s r))"
proof -
  assume d: "distinct (sch_list s)"
  let ?v0 = "\<lparr>next_task = None, next_delta = UINT64_MAX, reschedule = 0, sch = s\<rparr>"
  let ?miss = "filter (\<lambda>r. missed current (tasks s r)) (sch_list s)"
  have res: "snd (edf_get_next current ignore s) = sch (fold (edf_visit current) (sch_list s) ?v0)"
    by (simp add: edf_get_next_def list_is_empty_def Let_def)
  note pass = edf_pass_first [OF d, of ?v0 current, simplified]
  have none: "snd (edf_get_next current ignore s) = s" if "?miss = []"
    unfolding res pass using that by simp
  have some: "sch_list (snd (edf_get_next current ignore s)) = removeAll m (sch_list s) \<and>
      m \<notin> set (sch_list (snd (edf_get_next current ignore s))) \<and>
      tasks (snd (edf_get_next current ignore s)) m = (tasks s m)\<lparr>state := TASK_STATE_CANCEL\<rparr> \<and>
      (\<forall>r\<in>set ms.
         r \<in> set (sch_list (snd (edf_get_next current ignore s))) \<and>
         state (tasks (snd (edf_get_next current ignore s)) r) = TASK_STATE_QUEUED \<and>
         tasks (snd (edf_get_next current ignore s)) r = edf_reschedule (tasks s r) current) \<and>
      (\<forall>r. r \<notin> set (m # ms) \<longrightarrow> tasks (snd (edf_get_next current ignore s)) r = tasks s r)"
    if eq: "?miss = m # ms" for m ms
  proof -
    have dm: "distinct (m # ms)"
      using distinct_filter [OF d, of "\<lambda>r. missed current (tasks s r)"] unfolding eq .
    have "set (m # ms) = {r \<in> set (sch_list s). missed current (tasks s r)}"
      unfolding eq [symmetric] by simp
    then have sub: "\<And>r. r \<in> set (m # ms) \<Longrightarrow> r \<in> set (sch_list s) \<and> missed current (tasks s r)"
      by blast
    have st: "\<And>r. r \<in> set ms \<Longrightarrow>
        state (edf_reschedule (tasks s r) current) = TASK_STATE_QUEUED"
      using sub by (simp add: missed_def edf_reschedule_frame)
    show ?thesis unfolding res pass eq using dm sub st by auto
  qed
  from none some show ?thesis by blast
qed

theorem edf_get_next_miss_policy_witness:
  "distinct (sch_list sched_missed_eg) \<and>
   filter (\<lambda>r. missed 1000 (tasks sched_missed_eg r)) (sch_list sched_missed_eg) = [0, 2] \<and>
   sch_list (snd (edf_get_next 1000 None sched_missed_eg)) = [1, 2] \<and>
   state (tasks (snd (edf_get_next 1000 None sched_missed_eg)) 0) = TASK_STATE_CANCEL \<and>
   state (tasks (snd (edf_get_next 1000 None sched_missed_eg)) 2) = TASK_STATE_QUEUED \<and>
   start (tasks (snd (edf_get_next 1000 None sched_missed_eg)) 2) = 1400 \<and>
   deadline (tasks (snd (edf_get_next 1000 None sched_missed_eg)) 2) = 1600"
proof -
  have d: "distinct (sch_list sched_missed_eg)"
    by (simp add: sched_missed_eg_def)
  have f: "filter (\<lambda>r. missed 1000 (tasks sched_missed_eg r)) (sch_list sched_missed_eg) = [0, 2]"
    by (simp add: sched_missed_eg_def sched_eg_def task_eg_def missed_def)
  have t: "tasks sched_missed_eg 2 = task_eg" "tasks sched_missed_eg 0 = task_eg"
    "sch_list sched_missed_eg = [0, 1, 2]"
    by (simp_all add: sched_missed_eg_def)
  have r: "start (edf_reschedule task_eg 1000) = 1400" "deadline (edf_reschedule task_eg 1000) = 1600"
    by (simp_all add: edf_reschedule_def task_eg_def slot_align.simps SLOT_ALIGN_TRIES_def Let_def)
  from edf_get_next_miss_policy [OF d, of 1000 None] f
  have "sch_list (snd (edf_get_next 1000 None sched_missed_eg)) = removeAll 0 (sch_list sched_missed_eg)"
    "tasks (snd (edf_get_next 1000 None sched_missed_eg)) 0 = (tasks sched_missed_eg 0)\<lparr>state := TASK_STATE_CANCEL\<rparr>"
    "state (tasks (snd (edf_get_next 1000 None sched_missed_eg)) 2) = TASK_STATE_QUEUED"
    "tasks (snd (edf_get_next 1000 None sched_missed_eg)) 2 = edf_reschedule (tasks sched_missed_eg 2) 1000"
    by auto
  then show ?thesis using d f t r by simp
qed

text \<open>What one pass of the selector does to the scheduler, for a list without repetitions.\<close>

lemma edf_get_next_effect:
  assumes d: "distinct (sch_list s)"
  shows "set (sch_list (snd (edf_get_next current ignore s))) \<subseteq> set (sch_list s)"
    and "distinct (sch_list (snd (edf_get_next current ignore s)))"
    and "tasks (snd (edf_get_next current ignore s)) r = tasks s r \<or>
         state (tasks (snd (edf_get_next current ignore s)) r) = TASK_STATE_CANCEL \<or>
         (r \<in> set (sch_list s) \<and> missed current (tasks s r) \<and>
          tasks (snd (edf_get_next current ignore s)) r = edf_reschedule (tasks s r) current)"
    and "\<not> missed current (tasks s r) \<Longrightarrow>
         tasks (snd (edf_get_next current ignore s)) r = tasks s r"
    and "r \<in> set (sch_list s) \<Longrightarrow> missed current (tasks s r) \<Longrightarrow>
         tasks (snd (edf_get_next current ignore s)) r = (tasks s r)\<lparr>state := TASK_STATE_CANCEL\<rparr> \<or>
         tasks (snd (edf_get_next current ignore s)) r = edf_reschedule (tasks s r) current"
proof -
  let ?v0 = "\<lparr>next_task = None, next_delta = UINT64_MAX, reschedule = 0, sch = s\<rparr>"
  let ?miss = "filter (\<lambda>r. missed current (tasks s r)) (sch_list s)"
  have res: "snd (edf_get_next current ignore s) = sch (fold (edf_visit current) (sch_list s) ?v0)"
    by (simp add: edf_get_next_def list_is_empty_def Let_def)
  note pass = edf_pass_first [OF d, of ?v0 current, simplified]
  have sub: "set ?miss = {r \<in> set (sch_list s). missed current (tasks s r)}"
    by simp
  show "set (sch_list (snd (edf_get_next current ignore s))) \<subseteq> set (sch_list s)"
    unfolding res pass by (cases ?miss) auto
  show "distinct (sch_list (snd (edf_get_next current ignore s)))"
    unfolding res pass using d by (cases ?miss) (auto simp: distinct_removeAll)
  show "tasks (snd (edf_get_next current ignore s)) r = tasks s r \<or>
         state (tasks (snd (edf_get_next current ignore s)) r) = TASK_STATE_CANCEL \<or>
         (r \<in> set (sch_list s) \<and> missed current (tasks s r) \<and>
          tasks (snd (edf_get_next current ignore s)) r = edf_reschedule (tasks s r) current)"
  proof (cases ?miss)
    case Nil
    then show ?thesis unfolding res pass by simp
  next
    case (Cons m ms)
    with sub have "set ms \<subseteq> {r \<in> set (sch_list s). missed current (tasks s r)}" by auto
    then show ?thesis unfolding res pass Cons by auto
  qed
  show "tasks (snd (edf_get_next current ignore s)) r = tasks s r"
    if "\<not> missed current (tasks s r)"
  proof (cases ?miss)
    case Nil
    then show ?thesis unfolding res pass by simp
  next
    case (Cons m ms)
    with sub that have "r \<noteq> m" "r \<notin> set ms" by auto
    then show ?thesis unfolding res pass Cons by simp
  qed
  show "tasks (snd (edf_get_next current ignore s)) r = (tasks s r)\<lparr>state := TASK_STATE_CANCEL\<rparr> \<or>
        tasks (snd (edf_get_next current ignore s)) r = edf_reschedule (tasks s r) current"
    if "r \<in> set (sch_list s)" "missed current (tasks s r)"
  proof (cases ?miss)
    case Nil
    with sub that show ?thesis by auto
  next
    case (Cons m ms)
    with sub that have "r = m \<or> r \<in> set ms" by auto
    then show ?thesis unfolding res pass Cons by auto
  qed
qed

lemma edf_get_next_no_miss:
  assumes d: "distinct (sch_list s)"
    and n: "\<forall>r\<in>set (sch_list s). \<not> missed current (tasks s r)"
  shows "snd (edf_get_next current ignore s) = s"
proof -
  let ?v0 = "\<lparr>next_task = None, next_delta = UINT64_MAX, reschedule = 0, sch = s\<rparr>"
  have res: "snd (edf_get_next current ignore s) = sch (fold (edf_visit current) (sch_list s) ?v0)"
    by (simp add: edf_get_next_def list_is_empty_def Let_def)
  from n have "filter (\<lambda>r. missed current (tasks s r)) (sch_list s) = []"
    by (simp add: filter_empty_conv)
  then show ?thesis
    unfolding res edf_pass_first [OF d, of ?v0 current, simplified] by simp
qed

subsection \<open>The selected task\<close>

text \<open>A visit changes no task but the one visited, and selects no task but that one.\<close>

lemma edf_visit_tasks_other:
  "r \<noteq> x \<Longrightarrow> tasks (sch (edf_visit current x v)) r = tasks (sch v) r"
  by (simp add: edf_visit_def Let_def)

lemma edf_visit_next_task:
  "next_task (edf_visit current x v) = Some t \<Longrightarrow> next_task v \<noteq> Some t \<Longrightarrow>
     t = x \<and> state (tasks (sch v) x) = TASK_STATE_QUEUED \<and>
     current < deadline (tasks (sch v) x) - max_rtime (tasks (sch v) x)"
  by (auto simp: edf_visit_def Let_def split: if_splits)

text \<open>A task the pass selects is a queued member of the list whose effective deadline
  lies after \<open>current\<close>.\<close>

lemma edf_pass_selected_live:
  "distinct xs \<Longrightarrow> next_task (fold (edf_visit current) xs v) = Some t \<Longrightarrow>
   next_task v \<noteq> Some t \<Longrightarrow>
     t \<in> set xs \<and> state (tasks (sch v) t) = TASK_STATE_QUEUED \<and>
     current < deadline (tasks (sch v) t) - max_rtime (tasks (sch v) t)"
proof (induction xs arbitrary: v)
  case Nil
  then show ?case by simp
next
  case (Cons x xs)
  let ?v = "edf_visit current x v"
  from Cons.prems have d: "distinct xs" and nx: "x \<notin> set xs"
    and sel: "next_task (fold (edf_visit current) xs ?v) = Some t" by simp_all
  show ?case
  proof (cases "next_task ?v = Some t")
    case True
    from edf_visit_next_task [OF True Cons.prems(3)] show ?thesis by simp
  next
    case False
    from Cons.IH [OF d sel False]
    have t: "t \<in> set xs" "state (tasks (sch ?v) t) = TASK_STATE_QUEUED"
      "current < deadline (tasks (sch ?v) t) - max_rtime (tasks (sch ?v) t)"
      by simp_all
    from t(1) nx have "t \<noteq> x" by blast
    from edf_visit_tasks_other [OF this] t show ?thesis by simp
  qed
qed

lemma edf_get_next_selected:
  assumes d: "distinct (sch_list s)"
    and sel: "fst (edf_get_next current ignore s) = Some t"
  shows "t \<in> set (sch_list s)" "\<not> missed current (tasks s t)"
    "state (tasks s t) = TASK_STATE_QUEUED"
    "tasks (snd (edf_get_next current ignore s)) t = tasks s t"
    "t \<in> set (sch_list (snd (edf_get_next current ignore s)))"
proof -
  let ?v0 = "\<lparr>next_task = None, next_delta = UINT64_MAX, reschedule = 0, sch = s\<rparr>"
  let ?miss = "filter (\<lambda>r. missed current (tasks s r)) (sch_list s)"
  from sel have ne: "sch_list s \<noteq> []"
    by (auto simp: edf_get_next_def list_is_empty_def)
  with sel have "next_task (fold (edf_visit current) (sch_list s) ?v0) = Some t"
    by (simp add: edf_get_next_def list_is_empty_def Let_def)
  from edf_pass_selected_live [OF d this]
  show t: "t \<in> set (sch_list s)" and q: "state (tasks s t) = TASK_STATE_QUEUED"
    and live: "\<not> missed current (tasks s t)"
    by (simp_all add: missed_def)
  have res: "snd (edf_get_next current ignore s) = sch (fold (edf_visit current) (sch_list s) ?v0)"
    by (simp add: edf_get_next_def list_is_empty_def Let_def)
  note pass = edf_pass_first [OF d, of ?v0 current, simplified]
  have nm: "t \<notin> set ?miss" using live by simp
  show "tasks (snd (edf_get_next current ignore s)) t = tasks s t"
    unfolding res pass using nm by (cases ?miss) auto
  show "t \<in> set (sch_list (snd (edf_get_next current ignore s)))"
    unfolding res pass using nm t by (cases ?miss) auto
qed

text \<open>
  C9. Let the list hold no task twice, let the selector pick \<open>task\<close>, and let the start of
  \<open>task\<close> lie strictly after \<open>current\<close>. Then \<open>schedule_edf\<close> returns \<open>task\<close>; the state it
  returns is the selector's with the interrupt cleared, whatever the executor is, so the
  executor has not been run; \<open>task\<close> is as it was before the pass and still in the list;
  and \<open>scheduler_run\<close> arms the work at the start of \<open>task\<close>.
\<close>

theorem schedule_edf_future_task:
  "distinct (sch_list s) \<Longrightarrow>
   fst (edf_get_next current None s) = Some task \<Longrightarrow>
   current < start (tasks s task) \<Longrightarrow>
     schedule_edf arch_run_task current s =
       (Some task, interrupt_clear (snd (edf_get_next current None s))) \<and>
     tasks (snd (schedule_edf arch_run_task current s)) task = tasks s task \<and>
     task \<in> set (sch_list (snd (schedule_edf arch_run_task current s))) \<and>
     scheduler_run arch_run_task current s =
       (interrupt_clear (snd (edf_get_next current None s)))
         \<lparr>work_at := Some (start (tasks s task))\<rparr>"
proof -
  assume d: "distinct (sch_list s)"
    and sel: "fst (edf_get_next current None s) = Some task"
    and fut: "current < start (tasks s task)"
  obtain s1 where g: "edf_get_next current None s = (Some task, s1)"
    using sel by (cases "edf_get_next current None s") simp
  from edf_get_next_selected(4,5) [OF d sel] g
  have same: "tasks s1 task = tasks s task" and mem: "task \<in> set (sch_list s1)"
    by simp_all
  have e: "schedule_edf arch_run_task current s = (Some task, interrupt_clear s1)"
    using fut same by (simp add: schedule_edf_def g interrupt_clear_def Let_def)
  have r: "scheduler_run arch_run_task current s =
             (interrupt_clear s1)\<lparr>work_at := Some (start (tasks s task))\<rparr>"
    using same
    by (simp add: scheduler_run_def e work_reschedule_default_at_def interrupt_clear_def)
  show ?thesis using e r same mem g by (simp add: interrupt_clear_def)
qed

theorem schedule_edf_future_task_witness:
  "distinct (sch_list sched_missed_eg) \<and>
   fst (edf_get_next 1000 None sched_missed_eg) = Some 1 \<and>
   1000 < start (tasks sched_missed_eg 1) \<and>
   fst (schedule_edf arch_run_task_eg 1000 sched_missed_eg) = Some 1 \<and>
   start (tasks (snd (schedule_edf arch_run_task_eg 1000 sched_missed_eg)) 1) = 1500 \<and>
   work_at (scheduler_run arch_run_task_eg 1000 sched_missed_eg) = Some 1500"
proof -
  have d: "distinct (sch_list sched_missed_eg)"
    by (simp add: sched_missed_eg_def)
  have g: "fst (edf_get_next 1000 None sched_missed_eg) = Some 1"
    by (simp add: edf_get_next_def list_is_empty_def edf_visit_def sched_missed_eg_def
        sched_eg_def task_eg_def UINT64_MAX_def Let_def)
  have f: "1000 < start (tasks sched_missed_eg 1)" "start (tasks sched_missed_eg 1) = 1500"
    by (simp_all add: sched_missed_eg_def)
  note inst = schedule_edf_future_task [OF d g f(1), of arch_run_task_eg]
  from inst have "fst (schedule_edf arch_run_task_eg 1000 sched_missed_eg) = Some 1"
    by simp
  moreover from inst f(2)
  have "start (tasks (snd (schedule_edf arch_run_task_eg 1000 sched_missed_eg)) 1) = 1500"
    by metis
  moreover from inst f(2)
  have "work_at (scheduler_run arch_run_task_eg 1000 sched_missed_eg) = Some 1500"
    by simp
  ultimately show ?thesis using d g f(1) by blast
qed

subsection \<open>Selection of the task with the least delta\<close>

text \<open>
  C6. The only task of the list is queued, and at time 0 its effective deadline
  \<open>2 ^ 64 - 1\<close> has not been missed, so it is the task with the least delta. The selector
  returns no task: the delta equals the initial value \<open>UINT64_MAX\<close> of \<open>next_delta\<close>, and
  the comparison \<open>delta < next_delta\<close> is strict.
\<close>

theorem edf_get_next_largest_delta:
  "sch_list sched_far_eg = [0] \<and>
   state (tasks sched_far_eg 0) = TASK_STATE_QUEUED \<and>
   \<not> missed 0 (tasks sched_far_eg 0) \<and>
   deadline (tasks sched_far_eg 0) - max_rtime (tasks sched_far_eg 0) - 0 = UINT64_MAX \<and>
   edf_get_next 0 None sched_far_eg = (None, sched_far_eg)"
  by (simp add: edf_get_next_def list_is_empty_def edf_visit_def missed_def
      sched_far_eg_def sched_eg_def UINT64_MAX_def Let_def)

text \<open>No 64-bit value lies above \<open>UINT64_MAX\<close>.\<close>

lemma UINT64_MAX_top:
  "(UINT64_MAX \<le> w) = (w = UINT64_MAX)"
proof -
  have e: "UINT64_MAX = - 1" by (simp add: UINT64_MAX_def)
  show ?thesis unfolding e by (rule word_order.extremum_unique)
qed

lemma edf_visit_live:
  "state (tasks (sch v) x) = TASK_STATE_QUEUED \<Longrightarrow> \<not> missed current (tasks (sch v) x) \<Longrightarrow>
     edf_visit current x v =
       (if edf_delta current (tasks (sch v) x) < next_delta v
        then v\<lparr>next_delta := edf_delta current (tasks (sch v) x), next_task := Some x\<rparr>
        else v)"
  by (simp add: edf_visit_def missed_def Let_def)

lemma edf_visit_skip:
  "state (tasks (sch v) x) \<noteq> TASK_STATE_QUEUED \<Longrightarrow> edf_visit current x v = v"
  by (simp add: edf_visit_def)

text \<open>
  The state of the loop after it has visited \<open>xs\<close>, none of which has missed: either
  nothing was selected and no queued task of \<open>xs\<close> has a delta below the initial
  \<open>next_delta\<close>, or the selected task is the first of \<open>xs\<close> with the least delta.
\<close>

lemma edf_pass_min:
  assumes nm: "\<forall>r\<in>set xs. \<not> missed current (tasks (sch v) r)"
  shows "sch (fold (edf_visit current) xs v) = sch v \<and>
     next_delta (fold (edf_visit current) xs v) \<le> next_delta v \<and>
     ((next_task (fold (edf_visit current) xs v) = next_task v \<and>
       next_delta (fold (edf_visit current) xs v) = next_delta v \<and>
       (\<forall>r\<in>set xs. state (tasks (sch v) r) = TASK_STATE_QUEUED \<longrightarrow>
           next_delta v \<le> edf_delta current (tasks (sch v) r)))
      \<or> (\<exists>ys t zs. xs = ys @ t # zs \<and>
            next_task (fold (edf_visit current) xs v) = Some t \<and>
            state (tasks (sch v) t) = TASK_STATE_QUEUED \<and>
            next_delta (fold (edf_visit current) xs v) = edf_delta current (tasks (sch v) t) \<and>
            edf_delta current (tasks (sch v) t) < next_delta v \<and>
            (\<forall>r\<in>set ys. state (tasks (sch v) r) = TASK_STATE_QUEUED \<longrightarrow>
                edf_delta current (tasks (sch v) t) < edf_delta current (tasks (sch v) r)) \<and>
            (\<forall>r\<in>set zs. state (tasks (sch v) r) = TASK_STATE_QUEUED \<longrightarrow>
                edf_delta current (tasks (sch v) t) \<le> edf_delta current (tasks (sch v) r))))"
  using nm
proof (induction xs rule: rev_induct)
  case Nil
  then show ?case by simp
next
  case (snoc x xs)
  let ?v = "fold (edf_visit current) xs v"
  let ?d = "\<lambda>r. edf_delta current (tasks (sch v) r)"
  let ?q = "\<lambda>r. state (tasks (sch v) r) = TASK_STATE_QUEUED"
  from snoc.prems have nmx: "\<not> missed current (tasks (sch v) x)"
    and nmxs: "\<forall>r\<in>set xs. \<not> missed current (tasks (sch v) r)" by simp_all
  note IH = snoc.IH [OF nmxs]
  from IH have sch: "sch ?v = sch v" and le: "next_delta ?v \<le> next_delta v" by simp_all
  have low: "\<forall>r\<in>set xs. ?q r \<longrightarrow> next_delta ?v \<le> ?d r"
  proof (intro ballI impI)
    fix r assume r: "r \<in> set xs" "?q r"
    from IH consider
      (none) "next_delta ?v = next_delta v"
        "\<forall>r\<in>set xs. ?q r \<longrightarrow> next_delta v \<le> ?d r"
      | (some) ys t zs where "xs = ys @ t # zs" "next_delta ?v = ?d t"
        "\<forall>r\<in>set ys. ?q r \<longrightarrow> ?d t < ?d r" "\<forall>r\<in>set zs. ?q r \<longrightarrow> ?d t \<le> ?d r"
      by blast
    then show "next_delta ?v \<le> ?d r"
    proof cases
      case none
      with r show ?thesis by simp
    next
      case some
      from r(1) some(1) have "r \<in> set ys \<or> r = t \<or> r \<in> set zs" by auto
      with some(2,3,4) r(2) show ?thesis by (auto intro: less_imp_le)
    qed
  qed
  have step: "fold (edf_visit current) (xs @ [x]) v = edf_visit current x ?v" by simp
  show ?case
  proof (cases "?q x \<and> ?d x < next_delta ?v")
    case True
    then have v': "edf_visit current x ?v = ?v\<lparr>next_delta := ?d x, next_task := Some x\<rparr>"
      using nmx by (simp add: edf_visit_live sch)
    have "\<forall>r\<in>set xs. ?q r \<longrightarrow> ?d x < ?d r"
      using low True by fastforce
    moreover have "?d x < next_delta v"
      using True le by (blast intro: order.strict_trans2)
    ultimately have "xs @ [x] = xs @ x # [] \<and>
            next_task (edf_visit current x ?v) = Some x \<and> ?q x \<and>
            next_delta (edf_visit current x ?v) = ?d x \<and> ?d x < next_delta v \<and>
            (\<forall>r\<in>set xs. ?q r \<longrightarrow> ?d x < ?d r) \<and>
            (\<forall>r\<in>set []. ?q r \<longrightarrow> ?d x \<le> ?d r)"
      using True by (simp add: v')
    then have "\<exists>ys t zs. xs @ [x] = ys @ t # zs \<and>
            next_task (edf_visit current x ?v) = Some t \<and> ?q t \<and>
            next_delta (edf_visit current x ?v) = ?d t \<and> ?d t < next_delta v \<and>
            (\<forall>r\<in>set ys. ?q r \<longrightarrow> ?d t < ?d r) \<and>
            (\<forall>r\<in>set zs. ?q r \<longrightarrow> ?d t \<le> ?d r)"
      by blast
    moreover have "sch (edf_visit current x ?v) = sch v"
      "next_delta (edf_visit current x ?v) \<le> next_delta v"
      using \<open>?d x < next_delta v\<close> by (simp_all add: v' sch)
    ultimately show ?thesis unfolding step by blast
  next
    case False
    then have v': "edf_visit current x ?v = ?v"
      using nmx by (cases "?q x") (simp_all add: edf_visit_live edf_visit_skip sch)
    have xlow: "?q x \<longrightarrow> next_delta ?v \<le> ?d x" using False by auto
    from IH consider
      (none) "next_task ?v = next_task v" "next_delta ?v = next_delta v"
        "\<forall>r\<in>set xs. ?q r \<longrightarrow> next_delta v \<le> ?d r"
      | (some) ys t zs where "xs = ys @ t # zs" "next_task ?v = Some t" "?q t"
        "next_delta ?v = ?d t" "?d t < next_delta v"
        "\<forall>r\<in>set ys. ?q r \<longrightarrow> ?d t < ?d r" "\<forall>r\<in>set zs. ?q r \<longrightarrow> ?d t \<le> ?d r"
      by blast
    then show ?thesis
    proof cases
      case none
      with xlow have "\<forall>r\<in>set (xs @ [x]). ?q r \<longrightarrow> next_delta v \<le> ?d r" by auto
      with none sch le show ?thesis unfolding step v' by blast
    next
      case some
      from some(1) have "xs @ [x] = ys @ t # (zs @ [x])" by simp
      moreover from some(4,7) xlow
      have "\<forall>r\<in>set (zs @ [x]). ?q r \<longrightarrow> ?d t \<le> ?d r" by auto
      ultimately have "\<exists>ys t zs. xs @ [x] = ys @ t # zs \<and>
            next_task ?v = Some t \<and> ?q t \<and>
            next_delta ?v = ?d t \<and> ?d t < next_delta v \<and>
            (\<forall>r\<in>set ys. ?q r \<longrightarrow> ?d t < ?d r) \<and>
            (\<forall>r\<in>set zs. ?q r \<longrightarrow> ?d t \<le> ?d r)"
        using some(2,3,4,5,6) by blast
      with sch le show ?thesis unfolding step v' by blast
    qed
  qed
qed

text \<open>
  Outside that case the selector is right. When no task of the list has missed, the
  pass changes nothing; if it selects a task, that task is queued, no queued task before
  it in the list has a delta as small, and none after it has a smaller one; and if it
  selects none, every queued task of the list has the delta \<open>UINT64_MAX\<close>.
\<close>

lemma edf_get_next_selects_min:
  assumes nm: "\<forall>r\<in>set (sch_list s). \<not> missed current (tasks s r)"
  shows "snd (edf_get_next current ignore s) = s"
    and "fst (edf_get_next current ignore s) = Some t \<Longrightarrow>
           \<exists>ys zs. sch_list s = ys @ t # zs \<and> state (tasks s t) = TASK_STATE_QUEUED \<and>
             (\<forall>r\<in>set ys. state (tasks s r) = TASK_STATE_QUEUED \<longrightarrow>
                 edf_delta current (tasks s t) < edf_delta current (tasks s r)) \<and>
             (\<forall>r\<in>set zs. state (tasks s r) = TASK_STATE_QUEUED \<longrightarrow>
                 edf_delta current (tasks s t) \<le> edf_delta current (tasks s r))"
    and "fst (edf_get_next current ignore s) = None \<Longrightarrow>
           \<forall>r\<in>set (sch_list s). state (tasks s r) = TASK_STATE_QUEUED \<longrightarrow>
             edf_delta current (tasks s r) = UINT64_MAX"
proof -
  let ?init = "\<lparr>next_task = None, next_delta = UINT64_MAX, reschedule = 0, sch = s\<rparr>"
  let ?v = "fold (edf_visit current) (sch_list s) ?init"
  have res: "edf_get_next current ignore s =
               (if sch_list s = [] then (None, s) else (next_task ?v, sch ?v))"
    by (simp add: edf_get_next_def list_is_empty_def Let_def)
  from nm have "\<forall>r\<in>set (sch_list s). \<not> missed current (tasks (sch ?init) r)" by simp
  note pass = edf_pass_min [OF this, simplified]
  show "snd (edf_get_next current ignore s) = s"
    using pass by (simp add: res)
  show "\<exists>ys zs. sch_list s = ys @ t # zs \<and> state (tasks s t) = TASK_STATE_QUEUED \<and>
             (\<forall>r\<in>set ys. state (tasks s r) = TASK_STATE_QUEUED \<longrightarrow>
                 edf_delta current (tasks s t) < edf_delta current (tasks s r)) \<and>
             (\<forall>r\<in>set zs. state (tasks s r) = TASK_STATE_QUEUED \<longrightarrow>
                 edf_delta current (tasks s t) \<le> edf_delta current (tasks s r))"
    if "fst (edf_get_next current ignore s) = Some t"
  proof -
    from that have "next_task ?v = Some t" by (simp add: res split: if_splits)
    with pass show ?thesis by auto
  qed
  show "\<forall>r\<in>set (sch_list s). state (tasks s r) = TASK_STATE_QUEUED \<longrightarrow>
             edf_delta current (tasks s r) = UINT64_MAX"
    if "fst (edf_get_next current ignore s) = None"
  proof (cases "sch_list s = []")
    case True
    then show ?thesis by simp
  next
    case False
    with that have "next_task ?v = None" by (simp add: res)
    with pass have "\<forall>r\<in>set (sch_list s). state (tasks s r) = TASK_STATE_QUEUED \<longrightarrow>
        UINT64_MAX \<le> edf_delta current (tasks s r)" by auto
    moreover have "\<And>w :: u64. UINT64_MAX \<le> w \<Longrightarrow> w = UINT64_MAX"
      by (simp add: UINT64_MAX_top)
    ultimately show ?thesis by blast
  qed
qed

subsection \<open>Dispatching a task that is due\<close>

text \<open>
  C7. Task 0 is inserted into the empty scheduler with \<open>start_us = 0\<close> and
  \<open>deadline_us = 1000\<close> at time 0, and is then the only member of the list. The pass at
  time 0 hands task 0 to the executor with its start set to 0, but the task it returns
  for arming is task 0 itself, not none: the second call of \<open>edf_get_next\<close> does not
  look at its \<open>ignore\<close> argument and selects the task being dispatched again.
\<close>

theorem schedule_edf_single_task:
  "sch_list (schedule_task platform_eg 0 0 0 1000 sched_eg) = [0] \<and>
   start (tasks (schedule_task platform_eg 0 0 0 1000 sched_eg) 0) = 0 \<and>
   deadline (tasks (schedule_task platform_eg 0 0 0 1000 sched_eg) 0) = 19000 \<and>
   schedule_edf arch_run_task 0 (schedule_task platform_eg 0 0 0 1000 sched_eg) =
     (Some 0,
      arch_run_task 0 ((schedule_task platform_eg 0 0 0 1000 sched_eg)\<lparr>irq_pending := False\<rparr>))"
  by (simp add: schedule_edf_def edf_get_next_def list_is_empty_def edf_visit_def
      schedule_task_def schedule_def interrupt_set_def interrupt_clear_def
      list_item_append_def platform_eg_def sched_eg_def UINT64_MAX_def Let_def)

text \<open>The pending interrupt passes through a visit, and so through the whole loop.\<close>

lemma edf_visit_irq:
  "edf_visit current x (v\<lparr>sch := (sch v)\<lparr>irq_pending := b\<rparr>\<rparr>) =
     (edf_visit current x v)\<lparr>sch := (sch (edf_visit current x v))\<lparr>irq_pending := b\<rparr>\<rparr>"
  by (simp add: edf_visit_def Let_def)

lemma edf_pass_irq:
  "fold (edf_visit current) xs (v\<lparr>sch := (sch v)\<lparr>irq_pending := b\<rparr>\<rparr>) =
     (fold (edf_visit current) xs v)
       \<lparr>sch := (sch (fold (edf_visit current) xs v))\<lparr>irq_pending := b\<rparr>\<rparr>"
proof (induction xs arbitrary: v)
  case Nil
  show ?case by simp
next
  case (Cons x xs)
  show ?case by (simp add: edf_visit_irq Cons.IH)
qed

text \<open>The selector looks neither at the pending interrupt nor at its \<open>ignore\<close> argument.\<close>

lemma edf_get_next_interrupt_clear:
  "edf_get_next current ignore (interrupt_clear s) =
     (fst (edf_get_next current ignore' s), interrupt_clear (snd (edf_get_next current ignore' s)))"
proof -
  let ?init = "\<lparr>next_task = None, next_delta = UINT64_MAX, reschedule = 0, sch = s\<rparr>"
  have "\<lparr>next_task = None, next_delta = UINT64_MAX, reschedule = 0,
         sch = s\<lparr>irq_pending := False\<rparr>\<rparr> = ?init\<lparr>sch := (sch ?init)\<lparr>irq_pending := False\<rparr>\<rparr>"
    by simp
  then show ?thesis
    by (simp only: edf_get_next_def interrupt_clear_def Let_def edf_pass_irq) simp
qed

text \<open>
  The same happens whenever a task is dispatched while no task of the list has missed:
  the pass returns the dispatched task itself.
\<close>

lemma schedule_edf_returns_dispatched:
  assumes nm: "\<forall>r\<in>set (sch_list s). \<not> missed current (tasks s r)"
    and sel: "fst (edf_get_next current None s) = Some task"
    and due: "\<not> current < start (tasks s task)"
  shows "schedule_edf arch_run_task current s =
           (Some task,
            arch_run_task task
              ((interrupt_clear s)\<lparr>tasks := (tasks s)(task := (tasks s task)\<lparr>start := current\<rparr>)\<rparr>))"
proof -
  from edf_get_next_selects_min(1) [OF nm, of None] sel
  have g: "edf_get_next current None s = (Some task, s)"
    by (cases "edf_get_next current None s") simp
  have g2: "edf_get_next current (Some task) (interrupt_clear s) = (Some task, interrupt_clear s)"
    unfolding edf_get_next_interrupt_clear [of current "Some task" s None] g by simp
  show ?thesis
    using due
    by (simp add: schedule_edf_def g g2 [unfolded interrupt_clear_def] Let_def interrupt_clear_def)
qed

subsection \<open>Deadlines after starts\<close>

text \<open>Two facts of 64-bit arithmetic: adding a non-zero amount without wrap-around gives a
  larger value, and \<open>k\<close> steps of \<open>w\<close> advance by at most \<open>k\<close> times \<open>w\<close>.\<close>

lemma u64_less_add:
  fixes a w :: u64
  assumes "w \<noteq> 0" "unat a + unat w < 2 ^ 64"
  shows "a < a + w"
proof -
  have "unat (a + w) = unat a + unat w"
    using assms(2) by (simp add: unat_add_lem [THEN iffD1])
  moreover have "0 < unat w" using assms(1) by (simp add: unat_gt_0)
  ultimately show ?thesis by (simp add: word_less_nat_alt)
qed

lemma u64_unat_steps:
  fixes a w :: u64
  shows "unat (a + of_nat k * w) \<le> unat a + k * unat w"
proof -
  have "unat (a + of_nat k * w) \<le> unat a + unat (of_nat k * w :: u64)"
    by (simp add: unat_word_ariths)
  also have "unat (of_nat k * w :: u64) \<le> unat (of_nat k :: u64) * unat w"
    by (simp add: unat_word_ariths)
  also have "unat (of_nat k :: u64) \<le> k"
    by (simp add: unat_of_nat)
  finally show ?thesis by (simp add: mult_le_mono1)
qed

text \<open>Recovery that fits leaves the deadline after the start, and the start at least one
  window after \<open>current\<close>.\<close>

lemma edf_reschedule_fits:
  assumes "realign_fits current task"
  shows "start (edf_reschedule task current) < deadline (edf_reschedule task current)"
    and "unat current + unat (window task) \<le> unat (start (edf_reschedule task current))"
    and "unat (deadline (edf_reschedule task current)) =
           unat (start (edf_reschedule task current)) + unat (window task)"
proof -
  let ?t = "edf_reschedule task current"
  from assms have w: "window task \<noteq> 0"
    and fs: "unat (start task) + 11 * unat (window task) < 2 ^ 64"
    and fc: "unat current + 2 * unat (window task) < 2 ^ 64"
    by (simp_all add: realign_fits_def)
  have cw: "unat (current + window task) = unat current + unat (window task)"
    using fc by (simp add: unat_add_lem [THEN iffD1])
  from edf_reschedule_cases [of task current]
  have dl: "deadline ?t = start ?t + window task"
    and cs: "(\<exists>k. k \<le> 10 \<and> start ?t = start task + of_nat k * window task \<and>
                current + window task < start ?t)
             \<or> start ?t = current + window task"
    by simp_all
  have room: "unat (start ?t) + unat (window task) < 2 ^ 64"
    and ahead: "unat current + unat (window task) \<le> unat (start ?t)"
  proof -
    from cs show "unat (start ?t) + unat (window task) < 2 ^ 64"
    proof
      assume "\<exists>k. k \<le> 10 \<and> start ?t = start task + of_nat k * window task \<and>
                current + window task < start ?t"
      then obtain k where k: "k \<le> 10" "start ?t = start task + of_nat k * window task"
        by blast
      have "unat (start ?t) \<le> unat (start task) + k * unat (window task)"
        unfolding k(2) by (rule u64_unat_steps)
      also have "\<dots> \<le> unat (start task) + 10 * unat (window task)"
        using k(1) by simp
      finally show ?thesis using fs by simp
    next
      assume "start ?t = current + window task"
      then show ?thesis using cw fc by simp
    qed
    from cs show "unat current + unat (window task) \<le> unat (start ?t)"
    proof
      assume "\<exists>k. k \<le> 10 \<and> start ?t = start task + of_nat k * window task \<and>
                current + window task < start ?t"
      then have "current + window task < start ?t" by blast
      then show ?thesis using cw by (simp add: word_less_nat_alt)
    next
      assume "start ?t = current + window task"
      then show ?thesis using cw by simp
    qed
  qed
  show "start ?t < deadline ?t"
    unfolding dl by (rule u64_less_add [OF w room])
  show "unat current + unat (window task) \<le> unat (start ?t)" by (rule ahead)
  show "unat (deadline ?t) = unat (start ?t) + unat (window task)"
    unfolding dl using room by (simp add: unat_add_lem [THEN iffD1])
qed

text \<open>A task recovered within these bounds whose \<open>max_rtime\<close> is at most its window has no
  longer missed.\<close>

lemma edf_reschedule_live:
  assumes f: "realign_fits current task"
    and m: "unat (max_rtime task) \<le> unat (window task)"
  shows "\<not> missed current (edf_reschedule task current)"
proof -
  let ?t = "edf_reschedule task current"
  note a = edf_reschedule_fits(2) [OF f] and dl = edf_reschedule_fits(3) [OF f]
  from f have w: "0 < unat (window task)"
    by (simp add: realign_fits_def unat_gt_0)
  have le: "max_rtime ?t \<le> deadline ?t"
    using m dl by (simp add: word_le_nat_alt edf_reschedule_frame)
  have "unat (deadline ?t - max_rtime ?t) = unat (deadline ?t) - unat (max_rtime ?t)"
    by (rule unat_sub [OF le])
  also have "\<dots> = unat (start ?t) + unat (window task) - unat (max_rtime task)"
    by (simp add: dl edf_reschedule_frame)
  finally have "unat current < unat (deadline ?t - max_rtime ?t)"
    using a m w by simp
  then show ?thesis by (simp add: missed_def word_less_nat_alt)
qed

text \<open>The invariant through a pass of the selector, through an insertion, and through a
  scheduling pass.\<close>

lemma edf_get_next_queued_ok:
  assumes ok: "queued_ok s" and d: "distinct (sch_list s)"
    and f: "\<forall>r\<in>set (sch_list s). missed current (tasks s r) \<longrightarrow> realign_fits current (tasks s r)"
  shows "queued_ok (snd (edf_get_next current ignore s))"
proof -
  let ?s = "snd (edf_get_next current ignore s)"
  have "start (tasks ?s r) < deadline (tasks ?s r)"
    if r: "r \<in> set (sch_list ?s)" and q: "state (tasks ?s r) = TASK_STATE_QUEUED" for r
  proof -
    from r edf_get_next_effect(1) [OF d] have mem: "r \<in> set (sch_list s)" by blast
    from edf_get_next_effect(3) [OF d, of current ignore r] q
    consider "tasks ?s r = tasks s r"
      | "missed current (tasks s r)" "tasks ?s r = edf_reschedule (tasks s r) current"
      by auto
    then show ?thesis
    proof cases
      case 1
      with ok mem q show ?thesis by (simp add: queued_ok_def list_all_iff)
    next
      case 2
      with f mem have "realign_fits current (tasks s r)" by blast
      from edf_reschedule_fits(1) [OF this] 2(2) show ?thesis by simp
    qed
  qed
  then show ?thesis by (simp add: queued_ok_def list_all_iff)
qed

lemma edf_get_next_clears_misses:
  assumes d: "distinct (sch_list s)"
    and f: "\<forall>r\<in>set (sch_list s). missed current (tasks s r) \<longrightarrow>
              realign_fits current (tasks s r) \<and>
              unat (max_rtime (tasks s r)) \<le> unat (window (tasks s r))"
  shows "\<forall>r\<in>set (sch_list (snd (edf_get_next current ignore s))).
           \<not> missed current (tasks (snd (edf_get_next current ignore s)) r)"
proof
  let ?s = "snd (edf_get_next current ignore s)"
  fix r assume r: "r \<in> set (sch_list ?s)"
  from r edf_get_next_effect(1) [OF d] have mem: "r \<in> set (sch_list s)" by blast
  show "\<not> missed current (tasks ?s r)"
  proof (cases "missed current (tasks s r)")
    case False
    with edf_get_next_effect(4) [OF d False, of ignore] show ?thesis by simp
  next
    case True
    with f mem have fit: "realign_fits current (tasks s r)"
      "unat (max_rtime (tasks s r)) \<le> unat (window (tasks s r))" by blast+
    from edf_get_next_effect(5) [OF d mem True, of ignore] show ?thesis
    proof
      assume "tasks ?s r = (tasks s r)\<lparr>state := TASK_STATE_CANCEL\<rparr>"
      then show ?thesis by (simp add: missed_def)
    next
      assume "tasks ?s r = edf_reschedule (tasks s r) current"
      with edf_reschedule_live [OF fit] show ?thesis by simp
    qed
  qed
qed

lemma queued_ok_interrupt_clear:
  "queued_ok (interrupt_clear s) = queued_ok s"
  by (simp add: queued_ok_def interrupt_clear_def)

lemma schedule_task_queued_ok:
  assumes ok: "queued_ok s"
    and tk: "clock_us_to_ticks p (clock s) deadline_us \<noteq> 0"
    and fit: "unat (if start_us = 0 then current
                    else start (tasks s task) + clock_us_to_ticks p (clock s) start_us
                           - PLATFORM_SCHEDULE_COST p)
              + unat (clock_us_to_ticks p (clock s) deadline_us) < 2 ^ 64"
  shows "queued_ok (schedule_task p current task start_us deadline_us s)"
proof (cases "state (tasks s task) = TASK_STATE_RUNNING")
  case True
  with ok show ?thesis by (simp add: schedule_task_def)
next
  case False
  let ?st = "if start_us = 0 then current
             else start (tasks s task) + clock_us_to_ticks p (clock s) start_us
                    - PLATFORM_SCHEDULE_COST p"
  from u64_less_add [OF tk fit]
  have "?st < ?st + clock_us_to_ticks p (clock s) deadline_us" .
  with ok False show ?thesis
    by (auto simp: queued_ok_def list_all_iff schedule_task_def schedule_def interrupt_set_def
        list_item_append_def Let_def dest: set_takeWhileD)
qed

lemma schedule_edf_queued_ok:
  assumes ok: "queued_ok s" and d: "distinct (sch_list s)"
    and rt: "\<forall>r\<in>set (sch_list s). state (tasks s r) = TASK_STATE_QUEUED \<longrightarrow>
               max_rtime (tasks s r) \<le> deadline (tasks s r)"
    and f: "\<forall>r\<in>set (sch_list s). missed current (tasks s r) \<longrightarrow>
              realign_fits current (tasks s r) \<and>
              unat (max_rtime (tasks s r)) \<le> unat (window (tasks s r))"
  shows "queued_ok (snd (schedule_edf (\<lambda>task s. s) current s))"
proof -
  obtain sel s1 where g: "edf_get_next current None s = (sel, s1)"
    by (cases "edf_get_next current None s")
  then have s1: "s1 = snd (edf_get_next current None s)"
    and sel: "fst (edf_get_next current None s) = sel" by simp_all
  let ?s2 = "interrupt_clear s1"
  from f have f': "\<forall>r\<in>set (sch_list s). missed current (tasks s r) \<longrightarrow>
                     realign_fits current (tasks s r)" by blast
  have ok2: "queued_ok ?s2"
    unfolding queued_ok_interrupt_clear s1 by (rule edf_get_next_queued_ok [OF ok d f'])
  have d2: "distinct (sch_list ?s2)"
    using edf_get_next_effect(2) [OF d, of current None] by (simp add: s1 interrupt_clear_def)
  have nm2: "\<forall>r\<in>set (sch_list ?s2). \<not> missed current (tasks ?s2 r)"
    using edf_get_next_clears_misses [OF d f, of None] by (simp add: s1 interrupt_clear_def)
  show ?thesis
  proof (cases sel)
    case None
    with ok2 show ?thesis by (simp add: schedule_edf_def g Let_def)
  next
    case (Some t)
    show ?thesis
    proof (cases "current < start (tasks ?s2 t)")
      case True
      with ok2 Some show ?thesis by (simp add: schedule_edf_def g Let_def)
    next
      case False
      have same: "snd (edf_get_next current (Some t) ?s2) = ?s2"
        by (rule edf_get_next_no_miss [OF d2 nm2])
      obtain np1 where g2: "edf_get_next current (Some t) ?s2 = (np1, ?s2)"
        using same by (cases "edf_get_next current (Some t) ?s2") simp
      have res: "snd (schedule_edf (\<lambda>task s. s) current s) =
                   ?s2\<lparr>tasks := (tasks ?s2)(t := (tasks ?s2 t)\<lparr>start := current\<rparr>)\<rparr>"
        using False Some by (simp add: schedule_edf_def g g2 Let_def)
      from sel Some have st: "fst (edf_get_next current None s) = Some t" by simp
      note t = edf_get_next_selected [OF d st]
      have t2: "tasks ?s2 t = tasks s t"
        using t(4) by (simp add: s1 interrupt_clear_def)
      from t(1,3) rt have le: "max_rtime (tasks s t) \<le> deadline (tasks s t)" by blast
      from t(2,3) have "current < deadline (tasks s t) - max_rtime (tasks s t)"
        by (simp add: missed_def)
      also have "\<dots> \<le> deadline (tasks s t)"
        using le by (simp add: word_le_nat_alt unat_sub)
      finally have "current < deadline (tasks ?s2 t)" by (simp add: t2)
      with ok2 show ?thesis
        unfolding res by (auto simp: queued_ok_def list_all_iff)
    qed
  qed
qed

text \<open>The state \<open>schedule_edf\<close> returns is the one it returns for an executor that does
  nothing, or what the executor makes of that state.\<close>

lemma schedule_edf_executor:
  "snd (schedule_edf arch_run_task current s) = snd (schedule_edf (\<lambda>task s. s) current s) \<or>
   (\<exists>task. snd (schedule_edf arch_run_task current s) =
             arch_run_task task (snd (schedule_edf (\<lambda>task s. s) current s)))"
  by (auto simp: schedule_edf_def Let_def split: prod.splits option.splits)

text \<open>
  C5, as the spec states it, fails: inserting task 0 with \<open>deadline_us = 0\<close> leaves it
  queued in the list with its deadline equal to its start.
\<close>

theorem schedule_task_zero_deadline_counterexample:
  "0 \<in> set (sch_list (schedule_task platform_eg 0 0 0 0 sched_eg)) \<and>
   state (tasks (schedule_task platform_eg 0 0 0 0 sched_eg) 0) = TASK_STATE_QUEUED \<and>
   \<not> start (tasks (schedule_task platform_eg 0 0 0 0 sched_eg) 0)
       < deadline (tasks (schedule_task platform_eg 0 0 0 0 sched_eg) 0)"
  by (simp add: schedule_task_def schedule_def interrupt_set_def list_item_append_def
      platform_eg_def sched_eg_def Let_def)

text \<open>
  C5, amended. In a scheduler where every queued member of the list has its deadline
  after its start, this remains so
  \<^item> after \<open>schedule_task\<close>, if the ticks of \<open>deadline_us\<close> are not zero and adding them to
    the new start does not wrap around;
  \<^item> after a pass of \<open>edf_get_next\<close> over a list without repetitions, if recovery fits
    for every missed task of the list; recovery that fits leaves any task with its
    deadline after its start;
  \<^item> in the state \<open>schedule_edf\<close> hands to the executor or returns without dispatching
    (the state it returns for an executor that does nothing), if moreover no queued task
    of the list has \<open>max_rtime\<close> above its deadline and no missed one has it above its
    window.
\<close>

theorem queued_ok_preserved:
  "queued_ok s \<Longrightarrow>
   (clock_us_to_ticks p (clock s) deadline_us \<noteq> 0 \<and>
    unat (if start_us = 0 then current
          else start (tasks s task) + clock_us_to_ticks p (clock s) start_us
                 - PLATFORM_SCHEDULE_COST p)
      + unat (clock_us_to_ticks p (clock s) deadline_us) < 2 ^ 64 \<longrightarrow>
    queued_ok (schedule_task p current task start_us deadline_us s)) \<and>
   (realign_fits current t \<longrightarrow>
    start (edf_reschedule t current) < deadline (edf_reschedule t current)) \<and>
   (distinct (sch_list s) \<and>
    (\<forall>r\<in>set (sch_list s). missed current (tasks s r) \<longrightarrow> realign_fits current (tasks s r)) \<longrightarrow>
    queued_ok (snd (edf_get_next current ignore s))) \<and>
   (distinct (sch_list s) \<and>
    (\<forall>r\<in>set (sch_list s). state (tasks s r) = TASK_STATE_QUEUED \<longrightarrow>
        max_rtime (tasks s r) \<le> deadline (tasks s r)) \<and>
    (\<forall>r\<in>set (sch_list s). missed current (tasks s r) \<longrightarrow>
        realign_fits current (tasks s r) \<and>
        unat (max_rtime (tasks s r)) \<le> unat (window (tasks s r))) \<longrightarrow>
    queued_ok (snd (schedule_edf (\<lambda>task s. s) current s)))"
proof -
  assume ok: "queued_ok s"
  show ?thesis
    using schedule_task_queued_ok [OF ok, of p deadline_us start_us current task]
      edf_reschedule_fits(1) [of current t]
      edf_get_next_queued_ok [OF ok, of current ignore]
      schedule_edf_queued_ok [OF ok, of current]
    by blast
qed

theorem queued_ok_preserved_witness:
  "queued_ok sched_missed_eg \<and>
   queued_ok (schedule_task platform_eg 1600 3 0 1000 sched_missed_eg) \<and>
   realign_fits 1600 task_eg \<and>
   start (edf_reschedule task_eg 1600) < deadline (edf_reschedule task_eg 1600) \<and>
   queued_ok (snd (edf_get_next 1600 None sched_missed_eg)) \<and>
   queued_ok (snd (schedule_edf (\<lambda>task s. s) 1600 sched_missed_eg))"
proof -
  have ok: "queued_ok sched_missed_eg"
    by (simp add: queued_ok_def sched_missed_eg_def sched_eg_def task_eg_def)
  have tk: "clock_us_to_ticks platform_eg (clock sched_missed_eg) 1000 \<noteq> 0"
    by (simp add: platform_eg_def)
  have fit: "unat (if (0 :: u64) = 0 then (1600 :: u64)
                   else start (tasks sched_missed_eg 3)
                          + clock_us_to_ticks platform_eg (clock sched_missed_eg) 0
                          - PLATFORM_SCHEDULE_COST platform_eg)
             + unat (clock_us_to_ticks platform_eg (clock sched_missed_eg) 1000) < 2 ^ 64"
    by (simp add: platform_eg_def)
  have rf: "realign_fits 1600 task_eg"
    by (simp add: realign_fits_def task_eg_def)
  have d: "distinct (sch_list sched_missed_eg)"
    by (simp add: sched_missed_eg_def)
  have rt: "\<forall>r\<in>set (sch_list sched_missed_eg).
              state (tasks sched_missed_eg r) = TASK_STATE_QUEUED \<longrightarrow>
              max_rtime (tasks sched_missed_eg r) \<le> deadline (tasks sched_missed_eg r)"
    by (simp add: sched_missed_eg_def sched_eg_def task_eg_def)
  have f: "\<forall>r\<in>set (sch_list sched_missed_eg). missed 1600 (tasks sched_missed_eg r) \<longrightarrow>
             realign_fits 1600 (tasks sched_missed_eg r) \<and>
             unat (max_rtime (tasks sched_missed_eg r)) \<le> unat (window (tasks sched_missed_eg r))"
    by (simp add: sched_missed_eg_def sched_eg_def task_eg_def missed_def realign_fits_def)
  note inst = queued_ok_preserved [OF ok, where p = platform_eg and deadline_us = 1000
      and start_us = 0 and current = 1600 and task = 3 and t = task_eg and ignore = None]
  from inst tk fit have "queued_ok (schedule_task platform_eg 1600 3 0 1000 sched_missed_eg)"
    by blast
  moreover from inst rf
  have "start (edf_reschedule task_eg 1600) < deadline (edf_reschedule task_eg 1600)"
    by blast
  moreover from inst d f have "queued_ok (snd (edf_get_next 1600 None sched_missed_eg))"
    by blast
  moreover from inst d rt f
  have "queued_ok (snd (schedule_edf (\<lambda>task s. s) 1600 sched_missed_eg))"
    by blast
  ultimately show ?thesis using ok rf by blast
qed

text \<open>
  The side conditions are not idle. A task inserted when the timer is at its last tick
  gets a deadline that has wrapped around to before its start; recovery of a task whose
  scheduling window is \<open>2 ^ 63\<close> ticks long computes the window 0 and leaves the deadline
  equal to the start; and a task whose \<open>max_rtime\<close> exceeds its deadline is selected and
  dispatched with a start after its deadline.
\<close>

lemma schedule_task_wrap_eg:
  "start (tasks (schedule_task platform_eg 0xFFFFFFFFFFFFFFFF 0 0 1000 sched_eg) 0)
     = 0xFFFFFFFFFFFFFFFF \<and>
   deadline (tasks (schedule_task platform_eg 0xFFFFFFFFFFFFFFFF 0 0 1000 sched_eg) 0) = 18999"
  by (simp add: schedule_task_def schedule_def interrupt_set_def list_item_append_def
      platform_eg_def sched_eg_def Let_def)

lemma edf_reschedule_zero_window_eg:
  "window (task_eg\<lparr>deadline := 0x8000000000000000\<rparr>) = 0 \<and>
   start (edf_reschedule (task_eg\<lparr>deadline := 0x8000000000000000\<rparr>) 7) = 7 \<and>
   deadline (edf_reschedule (task_eg\<lparr>deadline := 0x8000000000000000\<rparr>) 7) = 7"
  by (simp add: edf_reschedule_def task_eg_def slot_align.simps SLOT_ALIGN_TRIES_def Let_def)

lemma schedule_edf_long_rtime_eg:
  "queued_ok sched_long_eg \<and>
   fst (schedule_edf (\<lambda>task s. s) 7 sched_long_eg) = Some 0 \<and>
   start (tasks (snd (schedule_edf (\<lambda>task s. s) 7 sched_long_eg)) 0) = 7 \<and>
   deadline (tasks (snd (schedule_edf (\<lambda>task s. s) 7 sched_long_eg)) 0) = 5 \<and>
   \<not> queued_ok (snd (schedule_edf (\<lambda>task s. s) 7 sched_long_eg))"
  by (simp add: queued_ok_def schedule_edf_def edf_get_next_def list_is_empty_def edf_visit_def
      interrupt_clear_def sched_long_eg_def sched_eg_def UINT64_MAX_def Let_def)

end
